theory Spec2Isabelle
  imports Complex_Main "HOL-Library.Code_Target_Nat"
begin

section \<open>Text and character classes\<close>

text \<open>
  A Python \<open>str\<close> is a sequence of Unicode code points, and \<open>len\<close>, slicing and the
  \<open>re\<close> module all count code points.  A text is therefore a list of code points
  (natural numbers); \<open>str\<close> turns an ASCII literal into such a list.
\<close>

type_synonym pystr = "nat list"

definition str :: "string \<Rightarrow> pystr" where
  "str = map of_char"

text \<open>
  \<open>\s\<close> in a \<open>str\<close> pattern and \<open>str.strip()\<close> use the same predicate
  (\<open>Py_UNICODE_ISSPACE\<close>): the 29 code points below.
\<close>

definition is_space :: "nat \<Rightarrow> bool" where
  "is_space c \<longleftrightarrow>
     (9 \<le> c \<and> c \<le> 13) \<or> (28 \<le> c \<and> c \<le> 32) \<or> c = 133 \<or> c = 160 \<or> c = 5760 \<or>
     (8192 \<le> c \<and> c \<le> 8202) \<or> c = 8232 \<or> c = 8233 \<or> c = 8239 \<or> c = 8287 \<or>
     c = 12288"

text \<open>
  \<open>\d\<close> in a \<open>str\<close> pattern is any Unicode decimal digit (category Nd).  The ranges
  are those of the Unicode 14.0 database of CPython 3.11; the first is ASCII \<open>0\<close>-\<open>9\<close>.
\<close>

definition decimal_ranges :: "(nat \<times> nat) list" where
  "decimal_ranges =
    [(48, 57), (1632, 1641), (1776, 1785), (1984, 1993), (2406, 2415), (2534, 2543),
     (2662, 2671), (2790, 2799), (2918, 2927), (3046, 3055), (3174, 3183), (3302, 3311),
     (3430, 3439), (3558, 3567), (3664, 3673), (3792, 3801), (3872, 3881), (4160, 4169),
     (4240, 4249), (6112, 6121), (6160, 6169), (6470, 6479), (6608, 6617), (6784, 6793),
     (6800, 6809), (6992, 7001), (7088, 7097), (7232, 7241), (7248, 7257), (42528, 42537),
     (43216, 43225), (43264, 43273), (43472, 43481), (43504, 43513), (43600, 43609),
     (44016, 44025), (65296, 65305), (66720, 66729), (68912, 68921), (69734, 69743),
     (69872, 69881), (69942, 69951), (70096, 70105), (70384, 70393), (70736, 70745),
     (70864, 70873), (71248, 71257), (71360, 71369), (71472, 71481), (71904, 71913),
     (72016, 72025), (72784, 72793), (73040, 73049), (73120, 73129), (92768, 92777),
     (92864, 92873), (93008, 93017), (120782, 120831), (123200, 123209), (123632, 123641),
     (125264, 125273), (130032, 130041)]"

definition is_digit :: "nat \<Rightarrow> bool" where
  "is_digit c = list_ex (\<lambda>(lo, hi). lo \<le> c \<and> c \<le> hi) decimal_ranges"

text \<open>
  Under \<open>re.IGNORECASE\<close> a literal ASCII letter of a \<open>str\<close> pattern matches its two
  cases and, for \<open>i\<close>, \<open>k\<close> and \<open>s\<close>, the code points U+0130, U+0131, U+212A and U+017F
  that case-fold to them.  A literal that is not an ASCII letter matches itself only; the
  patterns of this module contain no literal outside ASCII.
\<close>

definition is_upper_ascii :: "nat \<Rightarrow> bool" where
  "is_upper_ascii c \<longleftrightarrow> 65 \<le> c \<and> c \<le> 90"

definition is_lower_ascii :: "nat \<Rightarrow> bool" where
  "is_lower_ascii c \<longleftrightarrow> 97 \<le> c \<and> c \<le> 122"

definition to_lower :: "nat \<Rightarrow> nat" where
  "to_lower c = (if is_upper_ascii c then c + 32 else c)"

definition fold_extra :: "nat \<Rightarrow> nat list" where
  "fold_extra l =
     (if l = 105 then [304, 305] else if l = 107 then [8490] else if l = 115 then [383]
      else [])"

definition fold_class :: "nat \<Rightarrow> nat list" where
  "fold_class p =
     (if is_upper_ascii p \<or> is_lower_ascii p
      then [to_lower p, to_lower p - 32] @ fold_extra (to_lower p)
      else [p])"

definition lit_ok :: "bool \<Rightarrow> nat \<Rightarrow> nat \<Rightarrow> bool" where
  "lit_ok ic p c = (if ic then c \<in> set (fold_class p) else c = p)"


section \<open>The fragment of Python regular expressions the module uses\<close>

text \<open>
  One-character items: a literal, \<open>.\<close> (anything but a newline, no DOTALL here), \<open>\s\<close>,
  \<open>\d\<close> and a character set \<open>[...]\<close>.
\<close>

datatype atom = Lit nat | Dot | Space | Digit | OneOf pystr

fun atom_ok :: "bool \<Rightarrow> atom \<Rightarrow> nat \<Rightarrow> bool" where
  "atom_ok ic (Lit p) c = lit_ok ic p c"
| "atom_ok ic Dot c = (c \<noteq> 10)"
| "atom_ok ic Space c = is_space c"
| "atom_ok ic Digit c = is_digit c"
| "atom_ok ic (OneOf ps) c = list_ex (\<lambda>p. lit_ok ic p c) ps"

text \<open>
  Every quantifier in the module's patterns is applied to a one-character item:
  \<open>x*\<close> (\<open>Star\<close>), \<open>x*?\<close> (\<open>StarLazy\<close>), \<open>x+\<close> (\<open>Plus\<close>); \<open>r?\<close> is \<open>Opt\<close>,
  \<open>(?!r)\<close> is \<open>NotAhead\<close> and \<open>(?<=x)\<close> is \<open>Behind\<close>.  A group \<open>(...)\<close> only
  captures, which neither \<open>search\<close> used as a truth value nor \<open>split\<close> on a pattern
  without groups observes, so a group is its body.
\<close>

datatype regex =
    Eps
  | Atom atom
  | Seq regex regex
  | Alt regex regex
  | Star atom
  | StarLazy atom
  | Plus atom
  | Opt regex
  | NotAhead regex
  | Behind atom

text \<open>
  A position in the subject: the code point just before it (none at the start) and the
  text from it on.
\<close>

type_synonym pos = "nat option \<times> pystr"

text \<open>
  The positions reached by consuming 0, 1, 2, ... items that satisfy \<open>a\<close>, shortest first.
\<close>

fun runs :: "bool \<Rightarrow> atom \<Rightarrow> nat option \<Rightarrow> pystr \<Rightarrow> pos list" where
  "runs ic a p [] = [(p, [])]"
| "runs ic a p (c # cs) = (p, c # cs) # (if atom_ok ic a c then runs ic a (Some c) cs else [])"

text \<open>
  The backtracking matcher: all positions at which a match of \<open>r\<close> that starts at the given
  position can end, in the order in which the engine tries them (first alternative first,
  greedy quantifiers longest first, lazy ones shortest first).  The head of the list is the
  match the engine reports; the list is empty when there is none.
\<close>

fun rmatch :: "bool \<Rightarrow> regex \<Rightarrow> pos \<Rightarrow> pos list" where
  "rmatch ic Eps st = [st]"
| "rmatch ic (Atom a) (p, []) = []"
| "rmatch ic (Atom a) (p, c # cs) = (if atom_ok ic a c then [(Some c, cs)] else [])"
| "rmatch ic (Seq r1 r2) st = concat (map (rmatch ic r2) (rmatch ic r1 st))"
| "rmatch ic (Alt r1 r2) st = rmatch ic r1 st @ rmatch ic r2 st"
| "rmatch ic (Star a) (p, s) = rev (runs ic a p s)"
| "rmatch ic (StarLazy a) (p, s) = runs ic a p s"
| "rmatch ic (Plus a) (p, s) = rev (tl (runs ic a p s))"
| "rmatch ic (Opt r) st = rmatch ic r st @ [st]"
| "rmatch ic (NotAhead r) st = (if rmatch ic r st = [] then [st] else [])"
| "rmatch ic (Behind a) (None, s) = []"
| "rmatch ic (Behind a) (Some c, s) = (if atom_ok ic a c then [(Some c, s)] else [])"

text \<open>\<open>rx.search(s)\<close> as a truth value: some start position, tried left to right, has a match.\<close>

fun search_from :: "bool \<Rightarrow> regex \<Rightarrow> nat option \<Rightarrow> pystr \<Rightarrow> bool" where
  "search_from ic r p [] = (rmatch ic r (p, []) \<noteq> [])"
| "search_from ic r p (c # cs) =
     (if rmatch ic r (p, c # cs) \<noteq> [] then True else search_from ic r (Some c) cs)"

definition search :: "bool \<Rightarrow> regex \<Rightarrow> pystr \<Rightarrow> bool" where
  "search ic r s = search_from ic r None s"

text \<open>
  \<open>re.sub(r, repl, s)\<close> and \<open>r.split(s)\<close> for a pattern whose matches consume at least one
  code point (both patterns they are used with here begin with a \<open>+\<close> item): the
  leftmost match is replaced, or cut out, and the scan goes on behind it.  A match that
  consumes nothing is passed over.
\<close>

fun re_sub :: "bool \<Rightarrow> regex \<Rightarrow> pystr \<Rightarrow> nat option \<Rightarrow> pystr \<Rightarrow> pystr" where
  "re_sub ic r repl p [] = []"
| "re_sub ic r repl p (c # cs) =
     (case rmatch ic r (p, c # cs) of
        [] \<Rightarrow> c # re_sub ic r repl (Some c) cs
      | (p', s') # _ \<Rightarrow>
          if length s' < length (c # cs) then repl @ re_sub ic r repl p' s'
          else c # re_sub ic r repl (Some c) cs)"

fun re_split :: "bool \<Rightarrow> regex \<Rightarrow> pystr \<Rightarrow> nat option \<Rightarrow> pystr \<Rightarrow> pystr list" where
  "re_split ic r cur p [] = [cur]"
| "re_split ic r cur p (c # cs) =
     (case rmatch ic r (p, c # cs) of
        [] \<Rightarrow> re_split ic r (cur @ [c]) (Some c) cs
      | (p', s') # _ \<Rightarrow>
          if length s' < length (c # cs) then cur # re_split ic r [] p' s'
          else re_split ic r (cur @ [c]) (Some c) cs)"

text \<open>Helpers to write patterns: a literal word, a sequence, an alternation.\<close>

fun lits :: "pystr \<Rightarrow> regex" where
  "lits [] = Eps"
| "lits (c # cs) = Seq (Atom (Lit c)) (lits cs)"

definition word :: "string \<Rightarrow> regex" where
  "word w = lits (str w)"

fun seqs :: "regex list \<Rightarrow> regex" where
  "seqs [] = Eps"
| "seqs [r] = r"
| "seqs (r # rs) = Seq r (seqs rs)"

fun alts :: "regex list \<Rightarrow> regex" where
  "alts [] = NotAhead Eps"
| "alts [r] = r"
| "alts (r # rs) = Alt r (alts rs)"


section \<open>The module: data types\<close>

text \<open>
  \<open>RuleHit\<close> and \<open>RuleScanResult\<close>, the two \<open>TypedDict\<close>s of the module.  The field
  \<open>text\<close> of a hit is \<open>text_snippet\<close> here and \<open>notes\<close> of a result is \<open>notes_summary\<close>.
\<close>

record RuleHit =
  cat :: pystr
  rule_id :: int
  text_snippet :: pystr
  sent_idx :: nat

record RuleScanResult =
  hits :: "RuleHit list"
  notes_summary :: pystr


section \<open>The module: patterns and the rule table\<close>

definition VAGUE_VERBS :: regex where
  "VAGUE_VERBS =
     alts [word ''aim'', word ''seek'', word ''strive'', word ''endeavor'', word ''commit'',
           word ''pledge'', word ''work towards'', word ''aspire'', word ''intend'',
           word ''plan to'']"

definition TARGET_WORDS :: regex where
  "TARGET_WORDS = alts [word ''target'', word ''goal'', word ''objective'', word ''commitment'']"

definition YEAR_OR_BASELINE :: regex where
  "YEAR_OR_BASELINE =
     alts [seqs [word ''20'', Atom Digit, Atom Digit],
           word ''baseline'',
           seqs [word ''base'', Star Space, word ''year''],
           seqs [word ''reference'', Star Space, word ''year''],
           seqs [word ''from'', Star Space, word ''20'', Atom Digit, Atom Digit]]"

definition SCOPE2_AMBIG :: regex where
  "SCOPE2_AMBIG = alts [word ''renewable electricity'', word ''green electricity'']"

definition SCOPE2_QUAL :: regex where
  "SCOPE2_QUAL =
     alts [seqs [word ''market'', Atom (OneOf (str ''- '')), word ''based''],
           seqs [word ''location'', Atom (OneOf (str ''- '')), word ''based''],
           word ''dual reporting'', word ''residual mix'', word ''REC'', word ''GO'',
           word ''guarantee of origin'', word ''retire'', word ''cancel'']"

definition AVOIDED_EMISSIONS :: regex where
  "AVOIDED_EMISSIONS = alts [word ''avoided emissions'', word ''enabled emissions'']"

definition SCOPE_MENTION :: regex where
  "SCOPE_MENTION =
     alts [seqs [word ''scope'', Star Space, word ''1''],
           seqs [word ''scope'', Star Space, word ''2''],
           seqs [word ''scope'', Star Space, word ''3'']]"

definition NEUTRAL_OFFSET :: regex where
  "NEUTRAL_OFFSET =
     seqs [alts [word ''carbon neutral'', word ''climate neutral''],
           StarLazy Dot,
           alts [word ''via'', word ''through'', word ''using''],
           StarLazy Dot,
           alts [word ''offset'', word ''credit''],
           Opt (word ''s'')]"

definition THIRD_PARTY_STD :: regex where
  "THIRD_PARTY_STD =
     alts [seqs [word ''PAS'', Star Space, word ''2060''],
           word ''Verra'',
           seqs [word ''Gold'', Star Space, word ''Standard''],
           word ''ICROA'',
           seqs [word ''ISAE'', Star Space, word ''3000''],
           word ''AA1000'']"

text \<open>
  The rule table: (category, pattern, id).  Every pattern is compiled with
  \<open>re.IGNORECASE\<close>, which \<open>scan\<close> passes to the matcher.
\<close>

type_synonym rule = "pystr \<times> regex \<times> int"

definition RULES :: "rule list" where
  "RULES =
    [(str ''vague'', VAGUE_VERBS, 901),
     (str ''lack_metrics'',
        Seq TARGET_WORDS (NotAhead (Seq (Star Dot) YEAR_OR_BASELINE)), 102),
     (str ''misleading'',
        Seq SCOPE2_AMBIG (NotAhead (Seq (Star Dot) SCOPE2_QUAL)), 402),
     (str ''misleading'',
        Seq AVOIDED_EMISSIONS
          (NotAhead (Seq (Star Dot)
             (alts [word ''separate'', word ''disclose'',
                    seqs [word ''outside'', Plus Space, word ''inventory'']]))), 303),
     (str ''cherry'',
        alts [seqs [word ''only'', Plus Space, word ''scope'', Star Space, word ''1'',
                    Star Space, word ''/'', Star Space, word ''2''],
              seqs [word ''scope'', Star Space, word ''3'', Star Space,
                    alts [word ''excluded'', word ''later'', word ''deferred'']]], 202),
     (str ''no_3rd'',
        Seq NEUTRAL_OFFSET (NotAhead (Seq (Star Dot) THIRD_PARTY_STD)), 302)]"


section \<open>The module: helpers\<close>

text \<open>\<open>_SENT_SPLIT\<close> is \<open>(?<=[\.\?\!])\s+|\n+\<close>, compiled without flags.\<close>

definition SENT_SPLIT :: regex where
  "SENT_SPLIT = Alt (Seq (Behind (OneOf (str ''.?!''))) (Plus Space)) (Plus (Lit 10))"

text \<open>\<open>str.strip()\<close> without argument.\<close>

definition strip :: "pystr \<Rightarrow> pystr" where
  "strip s = rev (dropWhile is_space (rev (dropWhile is_space s)))"

text \<open>
  \<open>_normalize\<close>.  The argument is optional: \<open>None\<close> is a missing text, which
  \<open>not text\<close> treats as the empty string.
\<close>

definition normalize_text :: "pystr option \<Rightarrow> pystr" where
  "normalize_text txt =
     (case txt of
        None \<Rightarrow> []
      | Some t0 \<Rightarrow>
          if t0 = [] then []
          else
            let t = map (\<lambda>c. if c = 160 then 32 else c) t0;
                t = re_sub False (Plus (OneOf [32, 9])) (str '' '') None t
            in strip t)"

text \<open>\<open>_split_sentences\<close>.\<close>

definition split_sentences :: "pystr option \<Rightarrow> pystr list" where
  "split_sentences txt =
     (let t = normalize_text txt in
      if t = [] then []
      else
        let parts = re_split False SENT_SPLIT [] None t
        in map strip (filter (\<lambda>p. p \<noteq> [] \<and> strip p \<noteq> []) parts))"


section \<open>The module: public API\<close>

text \<open>The decimal numeral an f-string prints for a length.\<close>

fun show_nat :: "nat \<Rightarrow> pystr" where
  "show_nat n = (if n < 10 then [48 + n] else show_nat (n div 10) @ [48 + n mod 10])"

declare show_nat.simps [simp del]

text \<open>
  The inner loop of \<open>scan\<close> over the rule table, for sentence \<open>i\<close>; \<open>acc\<close> is the list
  \<open>hits\<close> the loop appends to.
\<close>

fun scan_rules :: "nat \<Rightarrow> pystr \<Rightarrow> bool \<Rightarrow> rule list \<Rightarrow> RuleHit list \<Rightarrow> RuleHit list" where
  "scan_rules i sent has_third_party [] acc = acc"
| "scan_rules i sent has_third_party ((c, rx, rid) # rs) acc =
     (if c = str ''no_3rd'' \<and> has_third_party
      then scan_rules i sent has_third_party rs acc
      else if search True rx sent
      then scan_rules i sent has_third_party rs
             (acc @ [\<lparr>cat = c, rule_id = rid, text_snippet = take 400 sent, sent_idx = i\<rparr>])
      else scan_rules i sent has_third_party rs acc)"

text \<open>The outer loop over \<open>enumerate(sents)\<close>.\<close>

fun scan_sents :: "nat \<Rightarrow> pystr list \<Rightarrow> RuleHit list \<Rightarrow> RuleHit list" where
  "scan_sents i [] acc = acc"
| "scan_sents i (sent # sents) acc =
     (let has_third_party = search True THIRD_PARTY_STD sent
      in scan_sents (Suc i) sents (scan_rules i sent has_third_party RULES acc))"

definition scan :: "pystr option \<Rightarrow> pystr option \<Rightarrow> RuleScanResult" where
  "scan txt company =
     (let sents = split_sentences txt;
          hs = scan_sents 0 sents []
      in \<lparr>hits = hs,
          notes_summary = str ''sentences='' @ show_nat (length sents) @ str ''; hits='' @
                  show_nat (length hs) @ str ''; whitelist_in_sent=third_party''\<rparr>)"

text \<open>
  \<open>score\<close>, the legacy stub.  The dictionaries are association lists in the order the
  source writes them; the floats are all the literal \<open>0.0\<close>.
\<close>

record LegacyScore =
  radar :: "(pystr \<times> int) list"
  overall :: real
  overall_greenwashing_score :: "(pystr \<times> real) list"
  breakdown :: "(pystr \<times> real) list"
  engine :: pystr

definition score :: "pystr \<Rightarrow> LegacyScore" where
  "score txt =
     (let breakdown =
        [(str ''Vague or unsubstantiated claims'', 0),
         (str ''Lack of specific metrics or targets'', 0),
         (str ''Misleading terminology'', 0),
         (str ''Cherry-picked data'', 0),
         (str ''Absence of third-party verification'', 0)]
      in \<lparr>radar = [(str ''vague'', 0), (str ''lack_metrics'', 0), (str ''misleading'', 0),
                   (str ''cherry'', 0), (str ''no_3rd'', 0)],
          overall = 0,
          overall_greenwashing_score = [(str ''score'', 0)],
          breakdown = breakdown,
          engine = str ''legacy-stub''\<rparr>)"


section \<open>The module with its failing call explicit\<close>

text \<open>
  Python checks a call when it is made.  The argument \<open>text\<close> of \<open>scan\<close> is a \<open>str\<close> or
  \<open>None\<close>, and \<open>None\<close> has no method \<open>replace\<close>: \<open>text.replace\<close> on it raises
  \<open>AttributeError\<close>.  Every other call of the module is made on a value that is a \<open>str\<close>
  by construction (the result of \<open>replace\<close>, \<open>re.sub\<close>, \<open>strip\<close> or \<open>split\<close>), and on a
  \<open>str\<close> none of \<open>re.sub\<close>, \<open>strip\<close>, \<open>split\<close>, \<open>re.search\<close>, \<open>len\<close> and the slice
  \<open>sent[:400]\<close> raises.  The source itself has no \<open>raise\<close>.  The three functions below
  are \<open>_normalize\<close>, \<open>_split_sentences\<close> and \<open>scan\<close> once more, line for line, with an
  exception as the left summand of the result.
\<close>

datatype py_error = AttributeError | TypeError

text \<open>\<open>not text\<close>: true of \<open>None\<close> and of the empty string.\<close>

definition py_not :: "pystr option \<Rightarrow> bool" where
  "py_not obj \<longleftrightarrow> (case obj of None \<Rightarrow> True | Some t \<Rightarrow> t = [])"

text \<open>\<open>obj.replace(old, new)\<close> for one-character strings \<open>old\<close> and \<open>new\<close>.\<close>

definition py_replace :: "pystr option \<Rightarrow> nat \<Rightarrow> nat \<Rightarrow> py_error + pystr" where
  "py_replace obj old new =
     (case obj of
        None \<Rightarrow> Inl AttributeError
      | Some t \<Rightarrow> Inr (map (\<lambda>c. if c = old then new else c) t))"

definition normalize_checked :: "pystr option \<Rightarrow> py_error + pystr" where
  "normalize_checked txt =
     (if py_not txt then Inr []
      else
        case py_replace txt 160 32 of
          Inl e \<Rightarrow> Inl e
        | Inr t \<Rightarrow>
            let t = re_sub False (Plus (OneOf [32, 9])) (str '' '') None t
            in Inr (strip t))"

definition split_sentences_checked :: "pystr option \<Rightarrow> py_error + pystr list" where
  "split_sentences_checked txt =
     (case normalize_checked txt of
        Inl e \<Rightarrow> Inl e
      | Inr t \<Rightarrow>
          if t = [] then Inr []
          else
            let parts = re_split False SENT_SPLIT [] None t
            in Inr (map strip (filter (\<lambda>p. p \<noteq> [] \<and> strip p \<noteq> []) parts)))"

definition scan_checked :: "pystr option \<Rightarrow> pystr option \<Rightarrow> py_error + RuleScanResult" where
  "scan_checked txt company =
     (case split_sentences_checked txt of
        Inl e \<Rightarrow> Inl e
      | Inr sents \<Rightarrow>
          let hs = scan_sents 0 sents []
          in Inr \<lparr>hits = hs,
                  notes_summary =
                    str ''sentences='' @ show_nat (length sents) @ str ''; hits='' @
                    show_nat (length hs) @ str ''; whitelist_in_sent=third_party''\<rparr>)"


section \<open>Notions used to state the properties\<close>

subsection \<open>The hits of one sentence\<close>

text \<open>
  What one pass of the inner loop of \<open>scan\<close> decides for a rule, and the hit it appends;
  \<open>sentence_hits\<close> and \<open>hits_from\<close> are the two loops without the accumulator.  They are
  proved equal to \<open>scan_rules\<close> and \<open>scan_sents\<close> below.
\<close>

fun fires :: "bool \<Rightarrow> pystr \<Rightarrow> rule \<Rightarrow> bool" where
  "fires has_third_party sent (c, rx, rid) \<longleftrightarrow>
     \<not> (c = str ''no_3rd'' \<and> has_third_party) \<and> search True rx sent"

fun mk_hit :: "nat \<Rightarrow> pystr \<Rightarrow> rule \<Rightarrow> RuleHit" where
  "mk_hit i sent (c, rx, rid) =
     \<lparr>cat = c, rule_id = rid, text_snippet = take 400 sent, sent_idx = i\<rparr>"

definition sentence_hits :: "nat \<Rightarrow> pystr \<Rightarrow> RuleHit list" where
  "sentence_hits i sent =
     map (mk_hit i sent) (filter (fires (search True THIRD_PARTY_STD sent) sent) RULES)"

fun hits_from :: "nat \<Rightarrow> pystr list \<Rightarrow> RuleHit list" where
  "hits_from i [] = []"
| "hits_from i (sent # sents) = sentence_hits i sent @ hits_from (Suc i) sents"

text \<open>
  The position in the rule table of the rule with a given id, and the order of hits by
  (sentence index, rule position).
\<close>

definition rule_pos :: "int \<Rightarrow> nat" where
  "rule_pos rid = length (takeWhile (\<lambda>rl. snd (snd rl) \<noteq> rid) RULES)"

definition hit_before :: "RuleHit \<Rightarrow> RuleHit \<Rightarrow> bool" where
  "hit_before h1 h2 \<longleftrightarrow>
     sent_idx h1 < sent_idx h2 \<or>
     (sent_idx h1 = sent_idx h2 \<and> rule_pos (rule_id h1) < rule_pos (rule_id h2))"

subsection \<open>Words in a text\<close>

text \<open>
  \<open>prev_of p a\<close> is the code point before a position that lies \<open>a\<close> behind a position
  with \<open>p\<close> before it.  \<open>starts_with ic w s\<close>: the text \<open>s\<close> begins with the word \<open>w\<close>,
  letter for letter, ignoring case when \<open>ic\<close> holds.  \<open>anywhere P s\<close>: \<open>P\<close> holds of \<open>s\<close>
  or of what is left of \<open>s\<close> behind some of its code points.  \<open>occurs ic w s\<close>: the word
  \<open>w\<close> appears somewhere in \<open>s\<close>.
\<close>

definition prev_of :: "nat option \<Rightarrow> pystr \<Rightarrow> nat option" where
  "prev_of p a = (if a = [] then p else Some (last a))"

fun starts_with :: "bool \<Rightarrow> pystr \<Rightarrow> pystr \<Rightarrow> bool" where
  "starts_with ic [] s = True"
| "starts_with ic (c # w) [] = False"
| "starts_with ic (c # w) (d # s) = (lit_ok ic c d \<and> starts_with ic w s)"

fun anywhere :: "(pystr \<Rightarrow> bool) \<Rightarrow> pystr \<Rightarrow> bool" where
  "anywhere P [] = P []"
| "anywhere P (c # cs) = (P (c # cs) \<or> anywhere P cs)"

definition occurs :: "bool \<Rightarrow> pystr \<Rightarrow> pystr \<Rightarrow> bool" where
  "occurs ic w s = anywhere (starts_with ic w) s"

text \<open>The names of the third-party standards, as the specification lists them.\<close>

definition standard_markers :: "pystr list" where
  "standard_markers =
     map str [''PAS 2060'', ''Verra'', ''Gold Standard'', ''ICROA'', ''ISAE 3000'', ''AA1000'']"

subsection \<open>Rule 102 on substrings\<close>

text \<open>
  What rule 102 decides, written without the matcher.  Everything is a substring, with no
  boundary around it and ignoring case: one of the four strings \<open>target\<close>, \<open>goal\<close>,
  \<open>objective\<close>, \<open>commitment\<close> stands somewhere in the sentence, also inside a longer
  word, and nowhere at or behind its end stands \<open>20\<close> with two decimal digits (also
  inside a longer number), \<open>baseline\<close>, or \<open>base\<close> or \<open>reference\<close> with \<open>year\<close>
  behind it and any white space, or none, between.
\<close>

definition target_words :: "pystr list" where
  "target_words = map str [''target'', ''goal'', ''objective'', ''commitment'']"

definition year_digits_at :: "pystr \<Rightarrow> bool" where
  "year_digits_at u \<longleftrightarrow>
     starts_with True (str ''20'') u \<and>
     (case drop 2 u of c # d # _ \<Rightarrow> is_digit c \<and> is_digit d | _ \<Rightarrow> False)"

definition baseline_at :: "pystr \<Rightarrow> bool" where
  "baseline_at u \<longleftrightarrow>
     starts_with True (str ''baseline'') u \<or>
     (starts_with True (str ''base'') u \<and>
      starts_with True (str ''year'') (dropWhile is_space (drop 4 u)))"

definition reference_year_at :: "pystr \<Rightarrow> bool" where
  "reference_year_at u \<longleftrightarrow>
     starts_with True (str ''reference'') u \<and>
     starts_with True (str ''year'') (dropWhile is_space (drop 9 u))"

definition qualifier_at :: "pystr \<Rightarrow> bool" where
  "qualifier_at u \<longleftrightarrow> year_digits_at u \<or> baseline_at u \<or> reference_year_at u"

definition unqualified_target_at :: "pystr \<Rightarrow> bool" where
  "unqualified_target_at b =
     list_ex (\<lambda>w. starts_with True w b \<and> \<not> anywhere qualifier_at (drop (length w) b))
       target_words"

definition lack_metrics_substrings :: "pystr \<Rightarrow> bool" where
  "lack_metrics_substrings s = anywhere unqualified_target_at s"

text \<open>
  The last alternative of \<open>YEAR_OR_BASELINE\<close>, \<open>from\s*20\d{2}\<close>; it adds nothing, since
  it ends in \<open>20\<close> with two digits.
\<close>

definition from_year_at :: "pystr \<Rightarrow> bool" where
  "from_year_at u \<longleftrightarrow>
     starts_with True (str ''from'') u \<and> year_digits_at (dropWhile is_space (drop 4 u))"


subsection \<open>Rule 102 on whole words\<close>

text \<open>
  The wording of the specification, taken at its word: a target, goal, objective or
  commitment \<^emph>\<open>word\<close> appears, and no year-like \<^emph>\<open>token\<close> (a four-digit year
  beginning with \<open>20\<close>), baseline reference or reference-year phrase comes behind it in
  the sentence.  A word or token has no letter or digit next to it on either side (the
  letters are the ASCII letters and the four code points that fold to them); a year
  token is \<open>20\<close> and two digits and nothing more; a baseline reference is the word
  \<open>baseline\<close> or the words \<open>base year\<close>; a reference-year phrase is the words
  \<open>reference year\<close>; case is ignored.  \<open>from_here_on P p s\<close>: \<open>P\<close> holds at the start of
  \<open>s\<close> or at a later position of it, each with the code point before it.
\<close>

definition is_word_char :: "nat \<Rightarrow> bool" where
  "is_word_char c \<longleftrightarrow>
     is_upper_ascii c \<or> is_lower_ascii c \<or> is_digit c \<or> c = 304 \<or> c = 305 \<or> c = 383 \<or>
     c = 8490"

definition boundary_before :: "nat option \<Rightarrow> bool" where
  "boundary_before p = (case p of None \<Rightarrow> True | Some c \<Rightarrow> \<not> is_word_char c)"

definition boundary_after :: "pystr \<Rightarrow> bool" where
  "boundary_after s = (case s of [] \<Rightarrow> True | c # _ \<Rightarrow> \<not> is_word_char c)"

definition whole_word_at :: "pystr \<Rightarrow> nat option \<Rightarrow> pystr \<Rightarrow> bool" where
  "whole_word_at w p s \<longleftrightarrow>
     boundary_before p \<and> starts_with True w s \<and> boundary_after (drop (length w) s)"

definition year_token_at :: "nat option \<Rightarrow> pystr \<Rightarrow> bool" where
  "year_token_at p u \<longleftrightarrow>
     boundary_before p \<and> starts_with True (str ''20'') u \<and>
     (case drop 2 u of c # d # rest \<Rightarrow> is_digit c \<and> is_digit d \<and> boundary_after rest
      | _ \<Rightarrow> False)"

definition phrase_at :: "pystr \<Rightarrow> pystr \<Rightarrow> nat option \<Rightarrow> pystr \<Rightarrow> bool" where
  "phrase_at w1 w2 p u \<longleftrightarrow>
     whole_word_at w1 p u \<and>
     (case drop (length w1) u of
        [] \<Rightarrow> False
      | c # rest \<Rightarrow> is_space c \<and> whole_word_at w2 (Some c) (dropWhile is_space rest))"

definition qualifier_token_at :: "nat option \<Rightarrow> pystr \<Rightarrow> bool" where
  "qualifier_token_at p u \<longleftrightarrow>
     year_token_at p u \<or> whole_word_at (str ''baseline'') p u \<or>
     phrase_at (str ''base'') (str ''year'') p u \<or>
     phrase_at (str ''reference'') (str ''year'') p u"

fun from_here_on :: "(nat option \<Rightarrow> pystr \<Rightarrow> bool) \<Rightarrow> nat option \<Rightarrow> pystr \<Rightarrow> bool" where
  "from_here_on P p [] = P p []"
| "from_here_on P p (c # cs) = (P p (c # cs) \<or> from_here_on P (Some c) cs)"

definition unqualified_word_at :: "nat option \<Rightarrow> pystr \<Rightarrow> bool" where
  "unqualified_word_at p b =
     list_ex (\<lambda>w. whole_word_at w p b \<and>
                 \<not> from_here_on qualifier_token_at (prev_of p (take (length w) b))
                      (drop (length w) b))
       target_words"

definition lack_metrics_words :: "pystr \<Rightarrow> bool" where
  "lack_metrics_words s = from_here_on unqualified_word_at None s"

text \<open>The rule with id \<open>rid\<close> has a hit for sentence \<open>i\<close> among \<open>hs\<close>.\<close>

definition rule_hit_at :: "int \<Rightarrow> nat \<Rightarrow> RuleHit list \<Rightarrow> bool" where
  "rule_hit_at rid i hs = list_ex (\<lambda>h. rule_id h = rid \<and> sent_idx h = i) hs"


section \<open>The loops of scan\<close>

text \<open>
  The accumulator only grows at its end, so the hits of \<open>scan\<close> are the hits of the
  sentences one after the other, each with its index.
\<close>

lemma ex_less_length_Cons:
  "(\<exists>k < length (x # xs). P k) \<longleftrightarrow> P 0 \<or> (\<exists>k < length xs. P (Suc k))"
proof
  assume "\<exists>k < length (x # xs). P k"
  then obtain k where k: "k < length (x # xs)" "P k" by blast
  then show "P 0 \<or> (\<exists>k < length xs. P (Suc k))"
    by (cases k) auto
next
  assume "P 0 \<or> (\<exists>k < length xs. P (Suc k))"
  then show "\<exists>k < length (x # xs). P k" by auto
qed

lemma scan_rules_acc:
  "scan_rules i sent b rs acc = acc @ map (mk_hit i sent) (filter (fires b sent) rs)"
proof (induction rs arbitrary: acc)
  case Nil
  show ?case by simp
next
  case (Cons rl rs)
  obtain c rx rid where rl: "rl = (c, rx, rid)" by (cases rl)
  show ?case
    using Cons.IH by (cases b) (simp_all add: rl)
qed

lemma scan_sents_eq: "scan_sents i sents acc = acc @ hits_from i sents"
  by (induction sents arbitrary: i acc) (simp_all add: scan_rules_acc sentence_hits_def Let_def)

lemma hits_scan: "hits (scan txt company) = hits_from 0 (split_sentences txt)"
  by (simp add: scan_def Let_def scan_sents_eq)

lemma in_hits_from:
  "h \<in> set (hits_from i sents) \<longleftrightarrow>
     (\<exists>k < length sents. h \<in> set (sentence_hits (i + k) (sents ! k)))"
proof (induction sents arbitrary: i)
  case Nil
  show ?case by simp
next
  case (Cons s ss)
  have "(\<exists>k < length (s # ss). h \<in> set (sentence_hits (i + k) ((s # ss) ! k))) \<longleftrightarrow>
        h \<in> set (sentence_hits i s) \<or>
        (\<exists>k < length ss. h \<in> set (sentence_hits (Suc i + k) (ss ! k)))"
    using ex_less_length_Cons
      [of s ss "\<lambda>k. h \<in> set (sentence_hits (i + k) ((s # ss) ! k))"] by simp
  then show ?case by (simp add: Cons.IH)
qed

lemma in_hits_scan:
  "h \<in> set (hits (scan txt company)) \<longleftrightarrow>
     (\<exists>i < length (split_sentences txt).
        h \<in> set (sentence_hits i (split_sentences txt ! i)))"
  by (simp add: hits_scan in_hits_from)


section \<open>Order and number of the hits\<close>

text \<open>The six rule ids differ, so the id of a hit tells the rule and its position.\<close>

lemma rule_ids: "map (\<lambda>rl. snd (snd rl)) RULES = [901, 102, 402, 303, 202, 302]"
  by (simp add: RULES_def)

lemma length_RULES: "length RULES = 6"
  by (simp add: RULES_def)

lemma rule_pos_eq:
  "rule_pos rid = length (takeWhile (\<lambda>r. r \<noteq> rid) (map (\<lambda>rl. snd (snd rl)) RULES))"
  by (simp add: rule_pos_def takeWhile_map comp_def)

lemma rule_pos_values:
  "rule_pos 901 = 0" "rule_pos 102 = 1" "rule_pos 402 = 2"
  "rule_pos 303 = 3" "rule_pos 202 = 4" "rule_pos 302 = 5"
  by (simp_all add: rule_pos_eq rule_ids)

lemma rules_ordered:
  "sorted_wrt (\<lambda>a b. rule_pos (snd (snd a)) < rule_pos (snd (snd b))) RULES"
proof -
  have "sorted_wrt (\<lambda>a b. rule_pos a < rule_pos b) (map (\<lambda>rl. snd (snd rl)) RULES)"
    unfolding rule_ids by (simp add: rule_pos_values)
  then show ?thesis by (simp add: sorted_wrt_map)
qed

lemma mk_hit_fields [simp]:
  "sent_idx (mk_hit i s rl) = i"
  "text_snippet (mk_hit i s rl) = take 400 s"
  "rule_id (mk_hit i s rl) = snd (snd rl)"
  "cat (mk_hit i s rl) = fst rl"
  by (cases rl; simp)+

lemma sentence_hits_sorted: "sorted_wrt hit_before (sentence_hits i s)"
proof -
  have "sorted_wrt (\<lambda>a b. hit_before (mk_hit i s a) (mk_hit i s b)) RULES"
    using rules_ordered by (simp add: hit_before_def)
  then have "sorted_wrt (\<lambda>a b. hit_before (mk_hit i s a) (mk_hit i s b))
               (filter (fires (search True THIRD_PARTY_STD s) s) RULES)"
    by (rule sorted_wrt_filter)
  then show ?thesis by (simp add: sentence_hits_def sorted_wrt_map)
qed

lemma sentence_hits_idx: "h \<in> set (sentence_hits i s) \<Longrightarrow> sent_idx h = i"
  by (auto simp: sentence_hits_def)

lemma sentence_hits_text: "h \<in> set (sentence_hits i s) \<Longrightarrow> text_snippet h = take 400 s"
  by (auto simp: sentence_hits_def)

lemma sentence_hits_length: "length (sentence_hits i s) \<le> 6"
proof -
  have "length (sentence_hits i s) \<le> length RULES"
    by (simp add: sentence_hits_def)
  then show ?thesis by (simp add: length_RULES)
qed

lemma hits_from_idx: "h \<in> set (hits_from i sents) \<Longrightarrow> i \<le> sent_idx h"
  by (auto simp: in_hits_from dest: sentence_hits_idx)

lemma hits_from_sorted: "sorted_wrt hit_before (hits_from i sents)"
proof (induction sents arbitrary: i)
  case Nil
  show ?case by simp
next
  case (Cons s ss)
  have cross: "hit_before x y"
    if "x \<in> set (sentence_hits i s)" and "y \<in> set (hits_from (Suc i) ss)" for x y
  proof -
    have "sent_idx x = i" using that(1) by (rule sentence_hits_idx)
    moreover have "Suc i \<le> sent_idx y" using that(2) by (rule hits_from_idx)
    ultimately show ?thesis by (simp add: hit_before_def)
  qed
  show ?case
    using Cons.IH [of "Suc i"] sentence_hits_sorted [of i s] cross
    by (simp add: sorted_wrt_append)
qed

lemma hits_sorted: "sorted_wrt hit_before (hits (scan txt company))"
  by (simp add: hits_scan hits_from_sorted)

lemma length_hits_from: "length (hits_from i sents) \<le> 6 * length sents"
proof (induction sents arbitrary: i)
  case Nil
  show ?case by simp
next
  case (Cons s ss)
  show ?case using Cons.IH [of "Suc i"] sentence_hits_length [of i s] by simp
qed

lemma sorted_filter_key_le1:
  "sorted_wrt hit_before hs \<Longrightarrow>
   length (filter (\<lambda>h. sent_idx h = i \<and> rule_id h = r) hs) \<le> 1"
proof (induction hs)
  case Nil
  show ?case by simp
next
  case (Cons h hs)
  show ?case
  proof (cases "sent_idx h = i \<and> rule_id h = r")
    case False
    with Cons show ?thesis by auto
  next
    case True
    have "filter (\<lambda>h. sent_idx h = i \<and> rule_id h = r) hs = []"
    proof (rule ccontr)
      assume "filter (\<lambda>h. sent_idx h = i \<and> rule_id h = r) hs \<noteq> []"
      then obtain g where g: "g \<in> set hs" "sent_idx g = i" "rule_id g = r"
        by (auto simp: filter_empty_conv)
      with Cons.prems have "hit_before h g" by simp
      with True g show False by (simp add: hit_before_def)
    qed
    with True show ?thesis by simp
  qed
qed


section \<open>Facts about the matcher\<close>

text \<open>
  \<open>search\<close> succeeds when the pattern matches at the start of some rest of the text; a
  sequence matches when its second part matches at an end of the first; a literal word
  matches where the text starts with it.
\<close>

lemma prev_of_simps [simp]:
  "prev_of p [] = p" "prev_of p (a @ [c]) = Some c" "prev_of p (c # a) = prev_of (Some c) a"
  "prev_of (prev_of p a) b = prev_of p (a @ b)"
  by (auto simp: prev_of_def)

lemma anywhere_iff: "anywhere P s \<longleftrightarrow> (\<exists>a b. s = a @ b \<and> P b)"
proof (induction s)
  case Nil
  show ?case by simp
next
  case (Cons c cs)
  show ?case
  proof
    assume "anywhere P (c # cs)"
    then consider "P (c # cs)" | "anywhere P cs" by auto
    then show "\<exists>a b. c # cs = a @ b \<and> P b"
    proof cases
      case 1
      then have "c # cs = [] @ (c # cs) \<and> P (c # cs)" by simp
      then show ?thesis by blast
    next
      case 2
      then obtain a b where "cs = a @ b" "P b" using Cons.IH by blast
      then have "c # cs = (c # a) @ b \<and> P b" by simp
      then show ?thesis by blast
    qed
  next
    assume "\<exists>a b. c # cs = a @ b \<and> P b"
    then obtain a b where ab: "c # cs = a @ b" "P b" by blast
    show "anywhere P (c # cs)"
    proof (cases a)
      case Nil
      with ab have "P (c # cs)" by simp
      then show ?thesis by simp
    next
      case (Cons x xs)
      with ab have "cs = xs @ b" by simp
      with ab(2) have "anywhere P cs" using Cons.IH by blast
      then show ?thesis by simp
    qed
  qed
qed

lemma search_from_iff:
  "search_from ic r p s \<longleftrightarrow> (\<exists>a b. s = a @ b \<and> rmatch ic r (prev_of p a, b) \<noteq> [])"
proof (induction s arbitrary: p)
  case Nil
  show ?case by simp
next
  case (Cons c cs)
  show ?case
  proof
    assume "search_from ic r p (c # cs)"
    then consider "rmatch ic r (p, c # cs) \<noteq> []" | "search_from ic r (Some c) cs"
      by (auto split: if_splits)
    then show "\<exists>a b. c # cs = a @ b \<and> rmatch ic r (prev_of p a, b) \<noteq> []"
    proof cases
      case 1
      then have "c # cs = [] @ (c # cs) \<and> rmatch ic r (prev_of p [], c # cs) \<noteq> []" by simp
      then show ?thesis by blast
    next
      case 2
      then obtain a b where "cs = a @ b" "rmatch ic r (prev_of (Some c) a, b) \<noteq> []"
        using Cons.IH by blast
      then have "c # cs = (c # a) @ b \<and> rmatch ic r (prev_of p (c # a), b) \<noteq> []"
        by simp
      then show ?thesis by blast
    qed
  next
    assume "\<exists>a b. c # cs = a @ b \<and> rmatch ic r (prev_of p a, b) \<noteq> []"
    then obtain a b where ab: "c # cs = a @ b" "rmatch ic r (prev_of p a, b) \<noteq> []" by blast
    show "search_from ic r p (c # cs)"
    proof (cases a)
      case Nil
      with ab have "rmatch ic r (p, c # cs) \<noteq> []" by simp
      then show ?thesis by simp
    next
      case (Cons x xs)
      with ab have "cs = xs @ b" "x = c" by simp_all
      moreover from ab(2) Cons \<open>x = c\<close> have "rmatch ic r (prev_of (Some c) xs, b) \<noteq> []"
        by simp
      ultimately have "search_from ic r (Some c) cs" using Cons.IH by blast
      then show ?thesis by simp
    qed
  qed
qed

lemma search_iff:
  "search ic r s \<longleftrightarrow> (\<exists>a b. s = a @ b \<and> rmatch ic r (prev_of None a, b) \<noteq> [])"
  by (simp add: search_def search_from_iff)

lemma seq_nonempty:
  "rmatch ic (Seq r1 r2) st \<noteq> [] \<longleftrightarrow> (\<exists>m \<in> set (rmatch ic r1 st). rmatch ic r2 m \<noteq> [])"
  by (auto simp: concat_eq_Nil_conv)

lemma alt_nonempty:
  "rmatch ic (Alt r1 r2) st \<noteq> [] \<longleftrightarrow> rmatch ic r1 st \<noteq> [] \<or> rmatch ic r2 st \<noteq> []"
  by simp

lemma notahead_nonempty:
  "rmatch ic (NotAhead r) st \<noteq> [] \<longleftrightarrow> rmatch ic r st = []"
  by simp

lemma rmatch_lits:
  "rmatch ic (lits w) (p, s) =
     (if starts_with ic w s then [(prev_of p (take (length w) s), drop (length w) s)] else [])"
proof (induction w arbitrary: p s)
  case Nil
  show ?case by simp
next
  case (Cons c w)
  show ?case
  proof (cases s)
    case Nil
    then show ?thesis by simp
  next
    case (Cons d s')
    then show ?thesis by (simp add: Cons.IH)
  qed
qed

lemma set_runs:
  "set (runs ic a p s) =
     {(prev_of p (take k s), drop k s) | k. k \<le> length (takeWhile (atom_ok ic a) s)}"
proof (induction s arbitrary: p)
  case Nil
  show ?case by simp
next
  case (Cons c cs)
  show ?case
  proof (cases "atom_ok ic a c")
    case False
    then show ?thesis by simp
  next
    case True
    have "{(prev_of p (take k (c # cs)), drop k (c # cs)) | k. k \<le> Suc (length (takeWhile (atom_ok ic a) cs))}
        = insert (p, c # cs) {(prev_of (Some c) (take k cs), drop k cs) | k. k \<le> length (takeWhile (atom_ok ic a) cs)}"
      (is "?L = ?R")
    proof (intro set_eqI iffI)
      fix x assume "x \<in> ?L"
      then obtain k where k: "x = (prev_of p (take k (c # cs)), drop k (c # cs))"
         "k \<le> Suc (length (takeWhile (atom_ok ic a) cs))" by blast
      show "x \<in> ?R"
      proof (cases k)
        case 0
        with k show ?thesis by simp
      next
        case (Suc j)
        with k have "x = (prev_of (Some c) (take j cs), drop j cs)"
          "j \<le> length (takeWhile (atom_ok ic a) cs)" by simp_all
        then show ?thesis by blast
      qed
    next
      fix x assume "x \<in> ?R"
      then consider "x = (p, c # cs)"
        | k where "x = (prev_of (Some c) (take k cs), drop k cs)" "k \<le> length (takeWhile (atom_ok ic a) cs)"
        by blast
      then show "x \<in> ?L"
      proof cases
        case 1
        then have "x = (prev_of p (take 0 (c # cs)), drop 0 (c # cs))" by simp
        then show ?thesis by blast
      next
        case 2
        then have "x = (prev_of p (take (Suc k) (c # cs)), drop (Suc k) (c # cs))"
          "Suc k \<le> Suc (length (takeWhile (atom_ok ic a) cs))" by simp_all
        then show ?thesis by blast
      qed
    qed
    with True show ?thesis by (simp add: Cons.IH)
  qed
qed

lemma starts_with_append:
  "starts_with ic (u @ v) s \<longleftrightarrow> starts_with ic u s \<and> starts_with ic v (drop (length u) s)"
proof (induction u arbitrary: s)
  case Nil
  show ?case by simp
next
  case (Cons c u)
  show ?case by (cases s) (simp_all add: Cons.IH)
qed

lemma star_nonempty_seq:
  "rmatch ic (Seq (Star a) r) (p, s) \<noteq> [] \<longleftrightarrow>
     (\<exists>k \<le> length (takeWhile (atom_ok ic a) s). rmatch ic r (prev_of p (take k s), drop k s) \<noteq> [])"
proof -
  have "rmatch ic (Seq (Star a) r) (p, s) \<noteq> [] \<longleftrightarrow>
        (\<exists>m \<in> set (runs ic a p s). rmatch ic r m \<noteq> [])"
    by (simp add: concat_eq_Nil_conv)
  also have "\<dots> \<longleftrightarrow> (\<exists>k \<le> length (takeWhile (atom_ok ic a) s).
                 rmatch ic r (prev_of p (take k s), drop k s) \<noteq> [])"
    unfolding set_runs by blast
  finally show ?thesis .
qed

lemma lits_nonempty_seq:
  "rmatch ic (Seq (lits w) r) (p, s) \<noteq> [] \<longleftrightarrow>
     starts_with ic w s \<and> rmatch ic r (prev_of p (take (length w) s), drop (length w) s) \<noteq> []"
  by (simp add: rmatch_lits)

lemma lits_nonempty: "rmatch ic (lits w) (p, s) \<noteq> [] \<longleftrightarrow> starts_with ic w s"
  by (simp add: rmatch_lits)


subsection \<open>White space between words\<close>

lemma space_run_skip:
  assumes "\<And>t. P t \<Longrightarrow> t \<noteq> [] \<and> \<not> is_space (hd t)"
  shows "(\<exists>k \<le> length (takeWhile is_space s). P (drop k s)) \<longleftrightarrow> P (dropWhile is_space s)"
proof
  assume "\<exists>k \<le> length (takeWhile is_space s). P (drop k s)"
  then obtain k where k: "k \<le> length (takeWhile is_space s)" "P (drop k s)"
    by blast
  have "k = length (takeWhile is_space s)"
  proof (rule ccontr)
    assume "k \<noteq> length (takeWhile is_space s)"
    with k(1) have lt: "k < length (takeWhile is_space s)" by simp
    then have "is_space (takeWhile is_space s ! k)"
      using nth_mem set_takeWhileD by metis
    moreover have "takeWhile is_space s ! k = s ! k" using lt by (rule takeWhile_nth)
    moreover have "k < length s" using lt length_takeWhile_le [of is_space s] by simp
    then have "hd (drop k s) = s ! k" by (simp add: hd_drop_conv_nth)
    ultimately have "is_space (hd (drop k s))" by simp
    with assms [OF k(2)] show False by simp
  qed
  with k(2) show "P (dropWhile is_space s)"
    by (simp add: dropWhile_eq_drop)
next
  assume "P (dropWhile is_space s)"
  then have "P (drop (length (takeWhile is_space s)) s)"
    by (simp add: dropWhile_eq_drop)
  then show "\<exists>k \<le> length (takeWhile is_space s). P (drop k s)"
    by blast
qed

lemma star_seq_pred:
  assumes "\<And>q t. rmatch ic r (q, t) \<noteq> [] \<longleftrightarrow> P t"
  shows "rmatch ic (Seq (Star a) r) (p, s) \<noteq> [] \<longleftrightarrow>
         (\<exists>k \<le> length (takeWhile (atom_ok ic a) s). P (drop k s))"
  unfolding star_nonempty_seq assms ..

lemma lits_seq_pred:
  assumes "\<And>q t. rmatch ic r (q, t) \<noteq> [] \<longleftrightarrow> P t"
  shows "rmatch ic (Seq (lits w) r) (p, s) \<noteq> [] \<longleftrightarrow> starts_with ic w s \<and> P (drop (length w) s)"
  unfolding lits_nonempty_seq assms ..

lemma starts_with_first:
  assumes "starts_with ic (c # w) t" and "\<And>d. lit_ok ic c d \<Longrightarrow> \<not> is_space d"
  shows "t \<noteq> [] \<and> \<not> is_space (hd t)"
  using assms by (cases t) auto

lemma space_seq_word:
  assumes "\<And>d. lit_ok ic c d \<Longrightarrow> \<not> is_space d"
      and "\<And>q t. rmatch ic r (q, t) \<noteq> [] \<longleftrightarrow> starts_with ic (c # w) t \<and> P t"
  shows "rmatch ic (Seq (Star Space) r) (p, s) \<noteq> [] \<longleftrightarrow>
         starts_with ic (c # w) (dropWhile is_space s) \<and> P (dropWhile is_space s)"
proof -
  have sp: "atom_ok ic Space = is_space" by (simp add: fun_eq_iff)
  have "rmatch ic (Seq (Star Space) r) (p, s) \<noteq> [] \<longleftrightarrow>
        (\<exists>k \<le> length (takeWhile is_space s). starts_with ic (c # w) (drop k s) \<and> P (drop k s))"
    using star_seq_pred [of ic r "\<lambda>t. starts_with ic (c # w) t \<and> P t" Space p s] assms(2)
    by (simp add: sp)
  also have "\<dots> \<longleftrightarrow> starts_with ic (c # w) (dropWhile is_space s) \<and> P (dropWhile is_space s)"
    by (rule space_run_skip) (use assms(1) starts_with_first in blast)
  finally show ?thesis .
qed


subsection \<open>The year and baseline pattern\<close>

lemma two_digits:
  "rmatch ic (Seq (Atom Digit) (Atom Digit)) (q, t) \<noteq> [] \<longleftrightarrow>
     (case t of c # d # _ \<Rightarrow> is_digit c \<and> is_digit d | _ \<Rightarrow> False)"
proof (cases t)
  case Nil
  then show ?thesis by simp
next
  case (Cons c t')
  then show ?thesis by (cases t') simp_all
qed

lemma lit_ok_ci_cases:
  "lit_ok True 50 d \<longleftrightarrow> d = 50"
  "lit_ok True 51 d \<longleftrightarrow> d = 51"
  "lit_ok True 32 d \<longleftrightarrow> d = 32"
  "lit_ok True 121 d \<longleftrightarrow> d = 121 \<or> d = 89"
  "lit_ok True 83 d \<longleftrightarrow> d = 115 \<or> d = 83 \<or> d = 383"
  by (auto simp: lit_ok_def fold_class_def is_upper_ascii_def is_lower_ascii_def to_lower_def
      fold_extra_def)

lemma not_space_start:
  "lit_ok True 50 d \<Longrightarrow> \<not> is_space d"
  "lit_ok True 51 d \<Longrightarrow> \<not> is_space d"
  "lit_ok True 121 d \<Longrightarrow> \<not> is_space d"
  "lit_ok True 83 d \<Longrightarrow> \<not> is_space d"
  by (auto simp: lit_ok_ci_cases is_space_def)

lemma year_nonempty:
  "rmatch True (Seq (word ''20'') (Seq (Atom Digit) (Atom Digit))) (q, t) \<noteq> [] \<longleftrightarrow> year_digits_at t"
  unfolding word_def
  by (simp only: lits_seq_pred [OF two_digits] year_digits_at_def) (simp add: str_def numeral_2_eq_2)

lemma word_space_word:
  assumes "\<And>d. lit_ok ic c d \<Longrightarrow> \<not> is_space d"
  shows "rmatch ic (Seq (lits u) (Seq (Star Space) (lits (c # w)))) (p, s) \<noteq> [] \<longleftrightarrow>
         starts_with ic u s \<and> starts_with ic (c # w) (dropWhile is_space (drop (length u) s))"
proof -
  have inner: "rmatch ic (Seq (Star Space) (lits (c # w))) (q, t) \<noteq> [] \<longleftrightarrow>
               starts_with ic (c # w) (dropWhile is_space t)" for q t
    using space_seq_word [of ic c "lits (c # w)" w "\<lambda>_. True" q t] assms
    by (simp only: lits_nonempty simp_thms)
  show ?thesis by (rule lits_seq_pred [OF inner])
qed

lemma year_digits_first: "year_digits_at t \<Longrightarrow> t \<noteq> [] \<and> \<not> is_space (hd t)"
  unfolding year_digits_at_def
  by (cases t) (auto simp: str_def lit_ok_ci_cases is_space_def)

lemma space_year:
  "rmatch True (Seq (Star Space) (Seq (word ''20'') (Seq (Atom Digit) (Atom Digit)))) (q, t) \<noteq> []
     \<longleftrightarrow> year_digits_at (dropWhile is_space t)"
proof -
  have sp: "atom_ok True Space = is_space" by (simp add: fun_eq_iff)
  have "rmatch True (Seq (Star Space) (Seq (word ''20'') (Seq (Atom Digit) (Atom Digit)))) (q, t) \<noteq> []
        \<longleftrightarrow> (\<exists>k \<le> length (takeWhile is_space t). year_digits_at (drop k t))"
    using star_seq_pred [of True _ year_digits_at Space q t, OF year_nonempty] by (simp add: sp)
  also have "\<dots> \<longleftrightarrow> year_digits_at (dropWhile is_space t)"
    by (rule space_run_skip) (rule year_digits_first)
  finally show ?thesis .
qed

lemma str_year: "str ''year'' = 121 # str ''ear''"
  by (simp add: str_def)

lemma len_base: "length (str ''base'') = 4"
  and len_reference: "length (str ''reference'') = 9"
  and len_from: "length (str ''from'') = 4"
  by (simp_all add: str_def)

lemma year_or_baseline_nonempty:
  "rmatch True YEAR_OR_BASELINE (q, t) \<noteq> [] \<longleftrightarrow> qualifier_at t \<or> from_year_at t"
proof -
  have y: "rmatch True (Seq (word ''20'') (Seq (Atom Digit) (Atom Digit))) (q, t) \<noteq> []
             \<longleftrightarrow> year_digits_at t"
    by (rule year_nonempty)
  have b1: "rmatch True (word ''baseline'') (q, t) \<noteq> [] \<longleftrightarrow> starts_with True (str ''baseline'') t"
    by (simp only: word_def lits_nonempty)
  have b2: "rmatch True (Seq (word ''base'') (Seq (Star Space) (word ''year''))) (q, t) \<noteq> []
             \<longleftrightarrow> starts_with True (str ''base'') t \<and>
                 starts_with True (str ''year'') (dropWhile is_space (drop 4 t))"
    using word_space_word [of True 121 "str ''base''" "str ''ear''" q t, OF not_space_start(3)]
    unfolding word_def str_year len_base .
  have r: "rmatch True (Seq (word ''reference'') (Seq (Star Space) (word ''year''))) (q, t) \<noteq> []
             \<longleftrightarrow> reference_year_at t"
    using word_space_word [of True 121 "str ''reference''" "str ''ear''" q t, OF not_space_start(3)]
    unfolding word_def str_year reference_year_at_def len_reference .
  have f: "rmatch True (Seq (word ''from'')
              (Seq (Star Space) (Seq (word ''20'') (Seq (Atom Digit) (Atom Digit))))) (q, t) \<noteq> []
             \<longleftrightarrow> from_year_at t"
    using lits_seq_pred [of True _ "\<lambda>t. year_digits_at (dropWhile is_space t)" "str ''from''" q t,
        OF space_year]
    unfolding from_year_at_def len_from word_def [of "''from''"] .
  have "rmatch True YEAR_OR_BASELINE (q, t) \<noteq> [] \<longleftrightarrow>
        year_digits_at t \<or> starts_with True (str ''baseline'') t \<or>
        (starts_with True (str ''base'') t \<and>
                 starts_with True (str ''year'') (dropWhile is_space (drop 4 t))) \<or>
        reference_year_at t \<or> from_year_at t"
    unfolding YEAR_OR_BASELINE_def alts.simps seqs.simps alt_nonempty
    by (simp only: y b1 b2 r f)
  then show ?thesis
    by (auto simp: qualifier_at_def baseline_at_def)
qed


subsection \<open>The look-ahead of rule 102\<close>

lemma anywhere_drop: "anywhere P s \<longleftrightarrow> (\<exists>k \<le> length s. P (drop k s))"
proof
  assume "anywhere P s"
  then obtain a b where "s = a @ b" "P b" by (auto simp: anywhere_iff)
  then have "length a \<le> length s \<and> P (drop (length a) s)" by simp
  then show "\<exists>k \<le> length s. P (drop k s)" by blast
next
  assume "\<exists>k \<le> length s. P (drop k s)"
  then obtain k where "P (drop k s)" by blast
  moreover have "s = take k s @ drop k s" by simp
  ultimately show "anywhere P s" unfolding anywhere_iff by blast
qed

lemma anywhere_mono: "anywhere P s \<Longrightarrow> (\<And>t. P t \<Longrightarrow> Q t) \<Longrightarrow> anywhere Q s"
  unfolding anywhere_iff by blast

lemma anywhere_suffix: "anywhere P b \<Longrightarrow> anywhere P (a @ b)"
  unfolding anywhere_iff by (metis append.assoc)

lemma dotstar_anywhere:
  assumes "\<And>q t. rmatch ic r (q, t) \<noteq> [] \<longleftrightarrow> P t" and "10 \<notin> set s"
  shows "rmatch ic (Seq (Star Dot) r) (p, s) \<noteq> [] \<longleftrightarrow> anywhere P s"
proof -
  have tw: "takeWhile (atom_ok ic Dot) s = s"
    using assms(2) by (auto simp: takeWhile_eq_all_conv)
  show ?thesis
    using star_seq_pred [of ic r P Dot p s, OF assms(1)]
    unfolding tw anywhere_drop .
qed

lemma from_year_later: "from_year_at u \<Longrightarrow> anywhere qualifier_at u"
proof -
  assume "from_year_at u"
  then have y: "year_digits_at (dropWhile is_space (drop 4 u))"
    by (simp add: from_year_at_def)
  have "u = (take 4 u @ takeWhile is_space (drop 4 u)) @ dropWhile is_space (drop 4 u)"
    by simp
  with y show ?thesis unfolding anywhere_iff qualifier_at_def by blast
qed

lemma anywhere_with_from:
  "anywhere (\<lambda>t. qualifier_at t \<or> from_year_at t) s \<longleftrightarrow> anywhere qualifier_at s"
proof
  assume "anywhere (\<lambda>t. qualifier_at t \<or> from_year_at t) s"
  then obtain a b where ab: "s = a @ b" "qualifier_at b \<or> from_year_at b"
    unfolding anywhere_iff by blast
  then have "anywhere qualifier_at b"
  proof (cases "qualifier_at b")
    case True
    then have "b = [] @ b \<and> qualifier_at b" by simp
    then show ?thesis unfolding anywhere_iff by blast
  next
    case False
    with ab(2) show ?thesis by (simp add: from_year_later)
  qed
  with ab(1) show "anywhere qualifier_at s" by (simp add: anywhere_suffix)
next
  assume "anywhere qualifier_at s"
  then show "anywhere (\<lambda>t. qualifier_at t \<or> from_year_at t) s"
    by (rule anywhere_mono) simp
qed

lemma lookahead_102:
  assumes "10 \<notin> set s"
  shows "rmatch True (Seq (Star Dot) YEAR_OR_BASELINE) (p, s) \<noteq> [] \<longleftrightarrow> anywhere qualifier_at s"
  using dotstar_anywhere [of True YEAR_OR_BASELINE "\<lambda>t. qualifier_at t \<or> from_year_at t" s p,
      OF year_or_baseline_nonempty assms]
  by (simp only: anywhere_with_from)

lemma set_target_words:
  "set (rmatch True TARGET_WORDS (p, b)) =
     {(prev_of p (take (length w) b), drop (length w) b) | w.
        w \<in> set target_words \<and> starts_with True w b}"
  unfolding TARGET_WORDS_def target_words_def alts.simps word_def rmatch.simps set_append
    rmatch_lits
  by auto

lemma rule_102_at:
  assumes "10 \<notin> set b"
  shows "rmatch True (Seq TARGET_WORDS (NotAhead (Seq (Star Dot) YEAR_OR_BASELINE))) (p, b) \<noteq> []
         \<longleftrightarrow> unqualified_target_at b"
proof -
  have no_nl: "10 \<notin> set (drop k b)" for k
    using assms in_set_dropD by fastforce
  have "rmatch True (Seq TARGET_WORDS (NotAhead (Seq (Star Dot) YEAR_OR_BASELINE))) (p, b) \<noteq> []
        \<longleftrightarrow> (\<exists>m \<in> set (rmatch True TARGET_WORDS (p, b)).
               rmatch True (Seq (Star Dot) YEAR_OR_BASELINE) m = [])"
    by (simp only: seq_nonempty notahead_nonempty)
  also have "\<dots> \<longleftrightarrow> (\<exists>w \<in> set target_words. starts_with True w b \<and>
               rmatch True (Seq (Star Dot) YEAR_OR_BASELINE)
                 (prev_of p (take (length w) b), drop (length w) b) = [])"
    unfolding set_target_words by blast
  also have "\<dots> \<longleftrightarrow> (\<exists>w \<in> set target_words. starts_with True w b \<and>
               \<not> anywhere qualifier_at (drop (length w) b))"
    using lookahead_102 [OF no_nl] by blast
  finally show ?thesis by (simp add: unqualified_target_at_def list_ex_iff)
qed

lemma rule_102_search:
  assumes "10 \<notin> set s"
  shows "search True (Seq TARGET_WORDS (NotAhead (Seq (Star Dot) YEAR_OR_BASELINE))) s
         \<longleftrightarrow> lack_metrics_substrings s"
proof -
  have "search True (Seq TARGET_WORDS (NotAhead (Seq (Star Dot) YEAR_OR_BASELINE))) s \<longleftrightarrow>
        (\<exists>a b. s = a @ b \<and>
           rmatch True (Seq TARGET_WORDS (NotAhead (Seq (Star Dot) YEAR_OR_BASELINE)))
             (prev_of None a, b) \<noteq> [])"
    by (rule search_iff)
  also have "\<dots> \<longleftrightarrow> (\<exists>a b. s = a @ b \<and> unqualified_target_at b)"
  proof -
    have "rmatch True (Seq TARGET_WORDS (NotAhead (Seq (Star Dot) YEAR_OR_BASELINE)))
             (prev_of None a, b) \<noteq> [] \<longleftrightarrow> unqualified_target_at b" if "s = a @ b" for a b
      using assms that by (intro rule_102_at) simp
    then show ?thesis by blast
  qed
  finally show ?thesis by (simp add: lack_metrics_substrings_def anywhere_iff)
qed


section \<open>Sentences hold no newline\<close>

text \<open>
  A match of \<open>_SENT_SPLIT\<close> consumes at least one code point, so \<open>re_split\<close> never
  passes over a match; and the pattern matches at every newline, so no newline is left in
  a part.  This is what lets \<open>.*\<close> in a look-ahead reach the end of a sentence.
\<close>

lemma runs_length: "(q, s') \<in> set (runs ic a p s) \<Longrightarrow> length s' \<le> length s"
  unfolding set_runs by auto

lemma runs_tl_shorter: "(q, s') \<in> set (tl (runs ic a p s)) \<Longrightarrow> length s' < length s"
proof (cases s)
  case Nil
  assume "(q, s') \<in> set (tl (runs ic a p s))"
  with Nil show ?thesis by simp
next
  case (Cons c cs)
  assume "(q, s') \<in> set (tl (runs ic a p s))"
  with Cons have "(q, s') \<in> set (runs ic a (Some c) cs)"
    by (simp split: if_splits)
  then have "length s' \<le> length cs" by (rule runs_length)
  with Cons show ?thesis by simp
qed

lemma plus_shorter: "(q, s') \<in> set (rmatch ic (Plus a) (p, s)) \<Longrightarrow> length s' < length s"
  using runs_tl_shorter [of q s' ic a p s] by simp

lemma behind_same: "m \<in> set (rmatch ic (Behind a) (p, s)) \<Longrightarrow> m = (p, s)"
  by (cases p) (auto split: if_splits)

lemma sent_split_shorter:
  assumes "(q, s') \<in> set (rmatch False SENT_SPLIT (p, s))"
  shows "length s' < length s"
proof -
  from assms consider
      m where "m \<in> set (rmatch False (Behind (OneOf (str ''.?!''))) (p, s))"
              "(q, s') \<in> set (rmatch False (Plus Space) m)"
    | "(q, s') \<in> set (rmatch False (Plus (Lit 10)) (p, s))"
    unfolding SENT_SPLIT_def by auto
  then show ?thesis
  proof cases
    case 1
    from behind_same [OF 1(1)] 1(2) show ?thesis by (simp only: plus_shorter)
  next
    case 2
    then show ?thesis by (rule plus_shorter)
  qed
qed

lemma runs_nonempty: "runs ic a p s \<noteq> []"
  by (cases s) simp_all

lemma sent_split_newline: "rmatch False SENT_SPLIT (p, 10 # cs) \<noteq> []"
  using runs_nonempty [of False "Lit 10" "Some 10" cs]
  by (simp add: SENT_SPLIT_def lit_ok_def)

lemma re_split_no_newline:
  "10 \<notin> set cur \<Longrightarrow> part \<in> set (re_split False SENT_SPLIT cur p s) \<Longrightarrow> 10 \<notin> set part"
proof (induction "False" SENT_SPLIT cur p s rule: re_split.induct)
  case (1 cur p)
  then show ?case by simp
next
  case (2 cur p c cs)
  show ?case
  proof (cases "rmatch False SENT_SPLIT (p, c # cs)")
    case Nil
    then have "c \<noteq> 10" using sent_split_newline [of p cs] by auto
    with 2(1) [OF Nil] 2(4,5) Nil show ?thesis by simp
  next
    case (Cons m ms)
    obtain p' s' where m: "m = (p', s')" by (cases m)
    have "(p', s') \<in> set (rmatch False SENT_SPLIT (p, c # cs))"
      by (simp add: Cons m)
    then have short: "length s' < length (c # cs)" by (rule sent_split_shorter)
    from 2(5) Cons m short
    have "part = cur \<or> part \<in> set (re_split False SENT_SPLIT [] p' s')" by simp
    then show ?thesis
    proof
      assume "part = cur"
      with 2(4) show ?thesis by simp
    next
      assume "part \<in> set (re_split False SENT_SPLIT [] p' s')"
      with 2(2) [OF Cons m [symmetric] short] show ?thesis by simp
    qed
  qed
qed

lemma set_strip: "set (strip s) \<subseteq> set s"
proof -
  have "set (strip s) \<subseteq> set (dropWhile is_space s)"
    unfolding strip_def using set_dropWhileD [of _ is_space "rev (dropWhile is_space s)"] by auto
  also have "\<dots> \<subseteq> set s" using set_dropWhileD by fastforce
  finally show ?thesis .
qed

lemma sentences_no_newline:
  assumes "s \<in> set (split_sentences txt)"
  shows "10 \<notin> set s"
proof -
  from assms obtain part where
    part: "part \<in> set (re_split False SENT_SPLIT [] None (normalize_text txt))" and s: "s = strip part"
    by (auto simp: split_sentences_def Let_def split: if_splits)
  have "10 \<notin> set part" using re_split_no_newline [OF _ part] by simp
  with s set_strip [of part] show ?thesis by auto
qed


section \<open>The third-party standards\<close>

text \<open>Where one of the six names stands, in any case, \<open>THIRD_PARTY_STD\<close> matches.\<close>

lemma spaced_word:
  assumes "starts_with True (u @ 32 # c # w) b" and "\<And>d. lit_ok True c d \<Longrightarrow> \<not> is_space d"
  shows "starts_with True u b \<and> starts_with True (c # w) (dropWhile is_space (drop (length u) b))"
proof -
  from assms(1) have u: "starts_with True u b"
    and t: "starts_with True (32 # c # w) (drop (length u) b)"
    by (simp_all add: starts_with_append)
  from t obtain d t' where dt: "drop (length u) b = d # t'" "lit_ok True 32 d"
      "starts_with True (c # w) t'"
    by (cases "drop (length u) b") auto
  from dt(2) have "is_space d" by (simp add: lit_ok_ci_cases is_space_def)
  moreover from dt(3) assms(2) have "t' \<noteq> [] \<and> \<not> is_space (hd t')"
    by (rule starts_with_first)
  then have "dropWhile is_space t' = t'" by (cases t') simp_all
  ultimately show ?thesis using u dt by simp
qed

lemma str_pas: "str ''PAS 2060'' = str ''PAS'' @ 32 # 50 # str ''060''"
  and str_gold: "str ''Gold Standard'' = str ''Gold'' @ 32 # 83 # str ''tandard''"
  and str_isae: "str ''ISAE 3000'' = str ''ISAE'' @ 32 # 51 # str ''000''"
  and str_2060: "str ''2060'' = 50 # str ''060''"
  and str_standard: "str ''Standard'' = 83 # str ''tandard''"
  and str_3000: "str ''3000'' = 51 # str ''000''"
  by (simp_all add: str_def)

lemma third_party_at:
  assumes "m \<in> set standard_markers" and "starts_with True m b"
  shows "rmatch True THIRD_PARTY_STD (p, b) \<noteq> []"
proof -
  have pas: "rmatch True (Seq (word ''PAS'') (Seq (Star Space) (word ''2060''))) (p, b) \<noteq> []"
    if "starts_with True (str ''PAS 2060'') b"
    using spaced_word [OF that [unfolded str_pas] not_space_start(1)]
    unfolding word_def str_2060 by (simp only: word_space_word [OF not_space_start(1)])
  have gold: "rmatch True (Seq (word ''Gold'') (Seq (Star Space) (word ''Standard''))) (p, b) \<noteq> []"
    if "starts_with True (str ''Gold Standard'') b"
    using spaced_word [OF that [unfolded str_gold] not_space_start(4)]
    unfolding word_def str_standard by (simp only: word_space_word [OF not_space_start(4)])
  have isae: "rmatch True (Seq (word ''ISAE'') (Seq (Star Space) (word ''3000''))) (p, b) \<noteq> []"
    if "starts_with True (str ''ISAE 3000'') b"
    using spaced_word [OF that [unfolded str_isae] not_space_start(2)]
    unfolding word_def str_3000 by (simp only: word_space_word [OF not_space_start(2)])
  have plain: "rmatch True (word w) (p, b) \<noteq> []" if "starts_with True (str w) b" for w
    using that by (simp only: word_def lits_nonempty)
  from assms(1) consider "m = str ''PAS 2060''" | "m = str ''Verra''" | "m = str ''Gold Standard''"
    | "m = str ''ICROA''" | "m = str ''ISAE 3000''" | "m = str ''AA1000''"
    unfolding standard_markers_def by auto
  then show ?thesis
    unfolding THIRD_PARTY_STD_def alts.simps seqs.simps alt_nonempty
    using assms(2) pas gold isae plain by cases blast+
qed

lemma marker_search:
  assumes "m \<in> set standard_markers" and "occurs True m s"
  shows "search True THIRD_PARTY_STD s"
proof -
  from assms(2) obtain a b where "s = a @ b" "starts_with True m b"
    unfolding occurs_def anywhere_iff by blast
  with third_party_at [OF assms(1), of b "prev_of None a"] show ?thesis
    unfolding search_iff by blast
qed

lemma sentence_hits_no_3rd:
  assumes "search True THIRD_PARTY_STD s" and "h \<in> set (sentence_hits i s)"
  shows "cat h \<noteq> str ''no_3rd''"
proof -
  from assms obtain rl where "h = mk_hit i s rl" "fires True s rl"
    by (auto simp: sentence_hits_def)
  then show ?thesis by (cases rl) auto
qed


section \<open>Rule 102 in the hits\<close>

lemma rule_102_only:
  assumes "rl \<in> set RULES" and "snd (snd rl) = 102"
  shows "rl = (str ''lack_metrics'',
               Seq TARGET_WORDS (NotAhead (Seq (Star Dot) YEAR_OR_BASELINE)), 102)"
  using assms unfolding RULES_def by auto

lemma rule_102_in: 
  "(str ''lack_metrics'', Seq TARGET_WORDS (NotAhead (Seq (Star Dot) YEAR_OR_BASELINE)), 102)
     \<in> set RULES"
  unfolding RULES_def by simp

lemma lack_metrics_not_no_3rd: "str ''lack_metrics'' \<noteq> str ''no_3rd''"
  by (simp add: str_def)

lemma sentence_hits_102:
  "(\<exists>h \<in> set (sentence_hits i s). rule_id h = 102) \<longleftrightarrow>
     search True (Seq TARGET_WORDS (NotAhead (Seq (Star Dot) YEAR_OR_BASELINE))) s"
proof
  assume "\<exists>h \<in> set (sentence_hits i s). rule_id h = 102"
  then obtain rl where rl: "rl \<in> set RULES" "fires (search True THIRD_PARTY_STD s) s rl"
      "snd (snd rl) = 102"
    by (auto simp: sentence_hits_def)
  from rule_102_only [OF rl(1,3)] rl(2)
  show "search True (Seq TARGET_WORDS (NotAhead (Seq (Star Dot) YEAR_OR_BASELINE))) s"
    by simp
next
  let ?rl = "(str ''lack_metrics'', Seq TARGET_WORDS (NotAhead (Seq (Star Dot) YEAR_OR_BASELINE)),
              102 :: int)"
  assume "search True (Seq TARGET_WORDS (NotAhead (Seq (Star Dot) YEAR_OR_BASELINE))) s"
  then have "fires (search True THIRD_PARTY_STD s) s ?rl"
    by (simp add: lack_metrics_not_no_3rd)
  with rule_102_in have "?rl \<in> set (filter (fires (search True THIRD_PARTY_STD s) s) RULES)"
    by simp
  then have "mk_hit i s ?rl \<in> set (sentence_hits i s)"
    unfolding sentence_hits_def set_map by (rule imageI)
  moreover have "rule_id (mk_hit i s ?rl) = 102" by simp
  ultimately show "\<exists>h \<in> set (sentence_hits i s). rule_id h = 102" by blast
qed

lemma hits_102_iff:
  assumes "i < length (split_sentences txt)"
  shows "(\<exists>h \<in> set (hits (scan txt company)). rule_id h = 102 \<and> sent_idx h = i) \<longleftrightarrow>
         lack_metrics_substrings (split_sentences txt ! i)"
proof -
  have nl: "10 \<notin> set (split_sentences txt ! i)"
    using assms nth_mem [of i "split_sentences txt"] sentences_no_newline by blast
  have "(\<exists>h \<in> set (hits (scan txt company)). rule_id h = 102 \<and> sent_idx h = i) \<longleftrightarrow>
        (\<exists>h \<in> set (sentence_hits i (split_sentences txt ! i)). rule_id h = 102)"
  proof
    assume "\<exists>h \<in> set (hits (scan txt company)). rule_id h = 102 \<and> sent_idx h = i"
    then obtain h where h: "h \<in> set (hits (scan txt company))" "rule_id h = 102"
      "sent_idx h = i" by blast
    from h(1) obtain j where "h \<in> set (sentence_hits j (split_sentences txt ! j))"
      by (auto simp: in_hits_scan)
    moreover from this have "sent_idx h = j" by (rule sentence_hits_idx)
    ultimately have "h \<in> set (sentence_hits i (split_sentences txt ! i))"
      using h(3) by simp
    with h(2) show "\<exists>h \<in> set (sentence_hits i (split_sentences txt ! i)). rule_id h = 102"
      by blast
  next
    assume "\<exists>h \<in> set (sentence_hits i (split_sentences txt ! i)). rule_id h = 102"
    then obtain h where h: "h \<in> set (sentence_hits i (split_sentences txt ! i))"
      "rule_id h = 102" by blast
    from h(1) have "sent_idx h = i" by (rule sentence_hits_idx)
    moreover from h(1) assms have "h \<in> set (hits (scan txt company))"
      unfolding in_hits_scan by blast
    ultimately show "\<exists>h \<in> set (hits (scan txt company)). rule_id h = 102 \<and> sent_idx h = i"
      using h(2) by blast
  qed
  also have "\<dots> \<longleftrightarrow> lack_metrics_substrings (split_sentences txt ! i)"
    by (simp only: sentence_hits_102 rule_102_search [OF nl])
  finally show ?thesis .
qed

lemma hits_102_cat:
  assumes "h \<in> set (hits (scan txt company))" and "rule_id h = 102"
  shows "cat h = str ''lack_metrics''"
proof -
  from assms(1) obtain j where "h \<in> set (sentence_hits j (split_sentences txt ! j))"
    by (auto simp: in_hits_scan)
  then obtain rl where rl: "rl \<in> set RULES" "h = mk_hit j (split_sentences txt ! j) rl"
    by (auto simp: sentence_hits_def)
  with assms(2) have "snd (snd rl) = 102" by simp
  from rule_102_only [OF rl(1) this] rl(2) show ?thesis by simp
qed


section \<open>No call raises\<close>

text \<open>
  The only call that can raise is guarded by \<open>not text\<close>, so each function with the
  exception explicit returns, as a result and not as an exception, what the function
  without it computes.  Without the guard the missing text would raise.
\<close>

lemma replace_on_missing_text: "py_replace None 160 32 = Inl AttributeError"
  by (simp add: py_replace_def)

lemma normalize_checked_ok: "normalize_checked txt = Inr (normalize_text txt)"
  by (cases "txt") (simp_all add: normalize_checked_def normalize_text_def py_not_def py_replace_def)

lemma split_sentences_checked_ok: "split_sentences_checked txt = Inr (split_sentences txt)"
  by (simp add: split_sentences_checked_def split_sentences_def normalize_checked_ok Let_def)

lemma scan_checked_ok: "scan_checked txt company = Inr (scan txt company)"
  by (simp add: scan_checked_def scan_def split_sentences_checked_ok Let_def)


section \<open>A text of any length\<close>

text \<open>
  The letter \<open>x\<close> any number of times: the text is its own normal form and its only
  sentence, and no rule fires on it, since no pattern of the table can begin with \<open>x\<close>.
\<close>

lemma re_sub_xs:
  "re_sub False (Plus (OneOf [32, 9])) repl p (replicate n 120) = replicate n 120"
  by (induction n arbitrary: p) (simp_all add: lit_ok_def)

lemma sent_split_x: "rmatch False SENT_SPLIT (p, 120 # cs) = []"
  by (cases p) (simp_all add: SENT_SPLIT_def lit_ok_def is_space_def)

lemma re_split_xs:
  "re_split False SENT_SPLIT cur p (replicate n 120) = [cur @ replicate n 120]"
proof (induction n arbitrary: cur p)
  case 0
  show ?case by simp
next
  case (Suc n)
  show ?case by (simp add: sent_split_x Suc.IH replicate_app_Cons_same)
qed

lemma strip_xs: "strip (replicate n 120) = replicate n 120"
proof -
  have "dropWhile is_space (replicate n 120) = replicate n 120"
    by (cases n) (simp_all add: is_space_def)
  then show ?thesis by (simp add: strip_def)
qed

lemma normalize_xs: "normalize_text (Some (replicate n 120)) = replicate n 120"
proof -
  have "map (\<lambda>c. if c = 160 then 32 else c) (replicate n 120) = replicate n (120 :: nat)"
    by simp
  then show ?thesis
    by (simp add: normalize_text_def re_sub_xs strip_xs Let_def del: map_replicate)
qed

lemma split_sentences_xs:
  "split_sentences (Some (replicate n 120)) = (if n = 0 then [] else [replicate n 120])"
  by (simp add: split_sentences_def normalize_xs re_split_xs strip_xs Let_def)

lemma lit_x: "lit_ok True c 120 \<longleftrightarrow> c = 120 \<or> c = 88"
  by (auto simp: lit_ok_def fold_class_def is_upper_ascii_def is_lower_ascii_def to_lower_def
      fold_extra_def)

lemma word_x:
  "c \<noteq> 120 \<Longrightarrow> c \<noteq> 88 \<Longrightarrow> rmatch True (lits (c # w)) (p, replicate k 120) = []"
  by (cases k) (simp_all add: lit_x)

lemma rules_x:
  assumes "rl \<in> set RULES"
  shows "rmatch True (fst (snd rl)) (p, replicate k 120) = []"
proof -
  have w: "rmatch True (word (c # w)) (q, replicate k 120) = []"
    if "of_char c \<noteq> (120 :: nat)" "of_char c \<noteq> (88 :: nat)" for c w q
    unfolding word_def str_def list.map using that by (rule word_x)
  from assms show ?thesis
    unfolding RULES_def VAGUE_VERBS_def TARGET_WORDS_def SCOPE2_AMBIG_def AVOIDED_EMISSIONS_def
      NEUTRAL_OFFSET_def
    by (auto simp: w)
qed

lemma suffix_of_run: "replicate n x = a @ b \<Longrightarrow> b = replicate (length b) x"
  by (metis append_eq_conv_conj drop_replicate length_replicate length_drop)

lemma search_x:
  assumes "rl \<in> set RULES"
  shows "\<not> search True (fst (snd rl)) (replicate n 120)"
proof
  assume "search True (fst (snd rl)) (replicate n 120)"
  then obtain a b where ab: "replicate n 120 = a @ b"
      and m: "rmatch True (fst (snd rl)) (prev_of None a, b) \<noteq> []"
    unfolding search_iff by blast
  from suffix_of_run [OF ab] rules_x [OF assms, of "prev_of None a" "length b"] m
  show False by simp
qed

lemma sentence_hits_xs: "sentence_hits i (replicate n 120) = []"
proof -
  have "\<not> fires b (replicate n 120) rl" if "rl \<in> set RULES" for rl b
    using search_x [OF that, of n] by (cases rl) simp
  then show ?thesis by (simp add: sentence_hits_def filter_empty_conv)
qed

lemma hits_xs: "hits (scan (Some (replicate n 120)) company) = []"
  by (simp add: hits_scan split_sentences_xs sentence_hits_xs)

lemma notes_xs:
  "notes_summary (scan (Some (replicate (Suc n) 120)) company) =
     str ''sentences=1; hits=0; whitelist_in_sent=third_party''"
proof -
  have "split_sentences (Some (replicate (Suc n) 120)) = [replicate (Suc n) 120]"
    by (simp only: split_sentences_xs) simp
  moreover have "scan_sents 0 [replicate (Suc n) 120] [] = []"
    by (simp add: scan_sents_eq sentence_hits_xs del: replicate.simps)
  ultimately show ?thesis
    by (simp add: scan_def Let_def show_nat.simps str_def del: scan_sents.simps replicate.simps)
qed


section \<open>Worked examples\<close>

text \<open>The texts of the scenarios, run through the whole pipeline.\<close>

lemma ex_aim:
  "hits_from 0 (split_sentences (Some (str ''We aim to reduce emissions.''))) =
     [\<lparr>cat = str ''vague'', rule_id = 901,
       text_snippet = str ''We aim to reduce emissions.'', sent_idx = 0\<rparr>]"
  by code_simp

lemma ex_aim_sentences:
  "split_sentences (Some (str ''We aim to reduce emissions.'')) =
     [str ''We aim to reduce emissions.'']"
  by code_simp

lemma ex_target:
  "hits_from 0 (split_sentences (Some (str ''Our target is net zero.''))) =
     [\<lparr>cat = str ''lack_metrics'', rule_id = 102,
       text_snippet = str ''Our target is net zero.'', sent_idx = 0\<rparr>]"
  by code_simp

lemma ex_target_sentences:
  "split_sentences (Some (str ''Our target is net zero.'')) = [str ''Our target is net zero.'']"
  by code_simp

lemma ex_target_year:
  "hits_from 0 (split_sentences (Some (str ''Our target is net zero by 2030.''))) = []"
  by code_simp

lemma ex_tonnes:
  "hits_from 0 (split_sentences (Some (str ''Our target is 120000 tonnes.''))) = []"
  by code_simp

lemma ex_tonnes_sentences:
  "split_sentences (Some (str ''Our target is 120000 tonnes.'')) =
     [str ''Our target is 120000 tonnes.'']"
  by code_simp

lemma ex_tonnes_words: "lack_metrics_words (str ''Our target is 120000 tonnes.'')"
  by code_simp

lemma ex_objectively:
  "hits_from 0 (split_sentences (Some (str ''We acted objectively.''))) =
     [\<lparr>cat = str ''lack_metrics'', rule_id = 102,
       text_snippet = str ''We acted objectively.'', sent_idx = 0\<rparr>]"
  by code_simp

lemma ex_objectively_sentences:
  "split_sentences (Some (str ''We acted objectively.'')) = [str ''We acted objectively.'']"
  by code_simp

lemma ex_objectively_words: "\<not> lack_metrics_words (str ''We acted objectively.'')"
  by code_simp

lemma ex_neutral:
  "hits_from 0 (split_sentences (Some (str ''We are carbon neutral through offsets.''))) =
     [\<lparr>cat = str ''no_3rd'', rule_id = 302,
       text_snippet = str ''We are carbon neutral through offsets.'', sent_idx = 0\<rparr>]"
  by code_simp

lemma ex_neutral_pas:
  "hits_from 0 (split_sentences
     (Some (str ''We are carbon neutral through offsets verified under PAS 2060.''))) = []"
  by code_simp

lemma ex_gold_sentences:
  "split_sentences (Some (str ''We are carbon neutral using credits (Gold Standard).'')) =
     [str ''We are carbon neutral using credits (Gold Standard).'']"
  by code_simp

lemma ex_gold_marker:
  "list_ex (\<lambda>m. occurs True m (str ''We are carbon neutral using credits (Gold Standard).''))
     standard_markers"
  by code_simp

lemma ex_gold_trigger:
  "search True NEUTRAL_OFFSET (str ''We are carbon neutral using credits (Gold Standard).'')"
  by code_simp

lemma ex_two:
  "map (\<lambda>h. (sent_idx h, rule_id h))
     (hits_from 0 (split_sentences (Some (str ''Our goal is to aim high. We strive.'')))) =
     [(0, 901), (0, 102), (1, 901)]"
  by code_simp

lemma ex_repeat:
  "hits_from 0 (split_sentences (Some (str ''We aim, we seek and we strive.''))) =
     [\<lparr>cat = str ''vague'', rule_id = 901,
       text_snippet = str ''We aim, we seek and we strive.'', sent_idx = 0\<rparr>]"
  by code_simp

lemma ex_long:
  "hits_from 0 (split_sentences (Some (str ''We aim '' @ replicate 394 120))) =
     [\<lparr>cat = str ''vague'', rule_id = 901,
       text_snippet = str ''We aim '' @ replicate 393 120, sent_idx = 0\<rparr>]"
  by code_simp


section \<open>The properties\<close>

text \<open>
  C1.  A sentence of the splitter that contains a third-party standard marker gives no hit
  of category \<open>no_3rd\<close> at its index.  The sentence contains a marker when the pattern
  \<open>THIRD_PARTY_STD\<close> is found in it as \<open>scan\<close> looks for it (ignoring case), and in
  particular when one of the six names, \<open>Gold Standard\<close> among them, appears in it in
  any case.  Nothing is assumed about the other rules or about the trigger pattern of
  rule 302, so the hit is absent also when the trigger matches.
\<close>

theorem third_party_marker_suppresses_no_3rd:
  assumes "i < length (split_sentences txt)"
      and "search True THIRD_PARTY_STD (split_sentences txt ! i) \<or>
           list_ex (\<lambda>m. occurs True m (split_sentences txt ! i)) standard_markers"
    shows "\<not> (\<exists>h \<in> set (hits (scan txt company)). cat h = str ''no_3rd'' \<and> sent_idx h = i)"
proof
  assume "\<exists>h \<in> set (hits (scan txt company)). cat h = str ''no_3rd'' \<and> sent_idx h = i"
  then obtain h where h: "h \<in> set (hits (scan txt company))" "cat h = str ''no_3rd''"
      "sent_idx h = i" by blast
  from h(1) obtain j where "h \<in> set (sentence_hits j (split_sentences txt ! j))"
    by (auto simp: in_hits_scan)
  moreover from this have "sent_idx h = j" by (rule sentence_hits_idx)
  ultimately have hi: "h \<in> set (sentence_hits i (split_sentences txt ! i))"
    using h(3) by simp
  have "search True THIRD_PARTY_STD (split_sentences txt ! i)"
    using assms(2) marker_search by (auto simp: list_ex_iff)
  from sentence_hits_no_3rd [OF this hi] h(2) show False by simp
qed

text \<open>
  The sentence \<open>We are carbon neutral using credits (Gold Standard).\<close> matches the trigger
  of rule 302 and names a standard: no \<open>no_3rd\<close> hit.
\<close>

theorem third_party_marker_suppresses_no_3rd_witness:
  "0 < length (split_sentences (Some (str ''We are carbon neutral using credits (Gold Standard).'')))
   \<and> list_ex (\<lambda>m. occurs True m
         (split_sentences (Some (str ''We are carbon neutral using credits (Gold Standard).'')) ! 0))
       standard_markers
   \<and> search True NEUTRAL_OFFSET
       (split_sentences (Some (str ''We are carbon neutral using credits (Gold Standard).'')) ! 0)
   \<and> \<not> (\<exists>h \<in> set (hits (scan
             (Some (str ''We are carbon neutral using credits (Gold Standard).'')) None)).
           cat h = str ''no_3rd'' \<and> sent_idx h = 0)"
proof -
  let ?t = "Some (str ''We are carbon neutral using credits (Gold Standard).'')"
  have len: "0 < length (split_sentences ?t)" by (simp add: ex_gold_sentences)
  have mark: "list_ex (\<lambda>m. occurs True m (split_sentences ?t ! 0)) standard_markers"
    by (simp only: ex_gold_sentences nth_Cons_0 ex_gold_marker)
  have trig: "search True NEUTRAL_OFFSET (split_sentences ?t ! 0)"
    by (simp only: ex_gold_sentences nth_Cons_0 ex_gold_trigger)
  from mark have "search True THIRD_PARTY_STD (split_sentences ?t ! 0) \<or>
      list_ex (\<lambda>m. occurs True m (split_sentences ?t ! 0)) standard_markers" ..
  from third_party_marker_suppresses_no_3rd [OF len this, of None] len mark trig
  show ?thesis by blast
qed

text \<open>
  C2.  As the specification words it, with whole words and a four-digit year token, the
  equivalence fails (see the two sentences behind the theorem).  What holds is the
  same with substrings.  Rule 102, category \<open>lack_metrics\<close>: \<open>scan\<close> reports it for the
  sentence at index \<open>i\<close> exactly when that sentence satisfies \<open>lack_metrics_substrings\<close>,
  that is, when one of the strings target, goal, objective, commitment stands in it, in
  any case and also inside a longer word, and nowhere at or behind its end stands \<open>20\<close>
  with two decimal digits (also inside a longer number), \<open>baseline\<close>, or \<open>base\<close> or
  \<open>reference\<close> with \<open>year\<close> behind it and any white space, or none, between.
  \<open>Our target is net zero.\<close> gives exactly one hit, of that rule, and
  \<open>Our target is net zero by 2030.\<close> gives none.
\<close>

theorem lack_metrics_rule:
  "(i < length (split_sentences txt) \<longrightarrow>
      ((\<exists>h \<in> set (hits (scan txt company)).
          cat h = str ''lack_metrics'' \<and> rule_id h = 102 \<and> sent_idx h = i) \<longleftrightarrow>
       lack_metrics_substrings (split_sentences txt ! i)) \<and>
      ((\<exists>h \<in> set (hits (scan txt company)). rule_id h = 102 \<and> sent_idx h = i) \<longleftrightarrow>
       lack_metrics_substrings (split_sentences txt ! i)) \<and>
      (rule_hit_at 102 i (hits (scan txt company)) \<longleftrightarrow>
       lack_metrics_substrings (split_sentences txt ! i))) \<and>
   hits (scan (Some (str ''Our target is net zero.'')) company) =
     [\<lparr>cat = str ''lack_metrics'', rule_id = 102,
       text_snippet = str ''Our target is net zero.'', sent_idx = 0\<rparr>] \<and>
   hits (scan (Some (str ''Our target is net zero by 2030.'')) company) = []"
proof (intro conjI impI)
  assume i: "i < length (split_sentences txt)"
  show "(\<exists>h \<in> set (hits (scan txt company)). rule_id h = 102 \<and> sent_idx h = i) \<longleftrightarrow>
       lack_metrics_substrings (split_sentences txt ! i)"
    using i by (rule hits_102_iff)
  then show "rule_hit_at 102 i (hits (scan txt company)) \<longleftrightarrow>
       lack_metrics_substrings (split_sentences txt ! i)"
    by (simp only: rule_hit_at_def list_ex_iff)
  show "(\<exists>h \<in> set (hits (scan txt company)).
          cat h = str ''lack_metrics'' \<and> rule_id h = 102 \<and> sent_idx h = i) \<longleftrightarrow>
       lack_metrics_substrings (split_sentences txt ! i)"
    using hits_102_iff [OF i, of company] hits_102_cat [of _ "txt" company] by blast
next
  show "hits (scan (Some (str ''Our target is net zero.'')) company) =
     [\<lparr>cat = str ''lack_metrics'', rule_id = 102,
       text_snippet = str ''Our target is net zero.'', sent_idx = 0\<rparr>]"
    by (simp only: hits_scan ex_target)
next
  show "hits (scan (Some (str ''Our target is net zero by 2030.'')) company) = []"
    by (simp only: hits_scan ex_target_year)
qed

text \<open>The first scenario, read through the equivalence: the sentence satisfies the wording.\<close>

theorem lack_metrics_rule_witness:
  "0 < length (split_sentences (Some (str ''Our target is net zero.''))) \<and>
   (\<exists>h \<in> set (hits (scan (Some (str ''Our target is net zero.'')) None)).
      rule_id h = 102 \<and> sent_idx h = 0) \<and>
   lack_metrics_substrings (split_sentences (Some (str ''Our target is net zero.'')) ! 0)"
proof -
  let ?t = "Some (str ''Our target is net zero.'')"
  have len: "0 < length (split_sentences ?t)" by (simp add: ex_target_sentences)
  have hit: "\<exists>h \<in> set (hits (scan ?t None)). rule_id h = 102 \<and> sent_idx h = 0"
    by (simp add: hits_scan ex_target)
  from lack_metrics_rule [of 0 ?t None] len hit show ?thesis by blast
qed

text \<open>
  With whole words the equivalence is false in both directions.  In
  \<open>Our target is 120000 tonnes.\<close> the word target has no year behind it, yet the rule does
  not fire, for \<open>2000\<close> stands inside the number.  In \<open>We acted objectively.\<close> there is
  no target word, yet the rule fires, for \<open>objective\<close> stands inside the adverb.
\<close>

theorem lack_metrics_rule_counterexample:
  "\<not> (rule_hit_at 102 0 (hits (scan (Some (str ''Our target is 120000 tonnes.'')) None)) \<longleftrightarrow>
      lack_metrics_words (split_sentences (Some (str ''Our target is 120000 tonnes.'')) ! 0)) \<and>
   \<not> (rule_hit_at 102 0 (hits (scan (Some (str ''We acted objectively.'')) None)) \<longleftrightarrow>
      lack_metrics_words (split_sentences (Some (str ''We acted objectively.'')) ! 0))"
proof
  have "\<not> rule_hit_at 102 0 (hits (scan (Some (str ''Our target is 120000 tonnes.'')) None))"
    by (simp add: hits_scan ex_tonnes rule_hit_at_def)
  moreover have
    "lack_metrics_words (split_sentences (Some (str ''Our target is 120000 tonnes.'')) ! 0)"
    by (simp only: ex_tonnes_sentences nth_Cons_0 ex_tonnes_words)
  ultimately show
    "\<not> (rule_hit_at 102 0 (hits (scan (Some (str ''Our target is 120000 tonnes.'')) None)) \<longleftrightarrow>
      lack_metrics_words (split_sentences (Some (str ''Our target is 120000 tonnes.'')) ! 0))"
    by simp
  have "rule_hit_at 102 0 (hits (scan (Some (str ''We acted objectively.'')) None))"
    by (simp add: hits_scan ex_objectively rule_hit_at_def)
  moreover have
    "\<not> lack_metrics_words (split_sentences (Some (str ''We acted objectively.'')) ! 0)"
    by (simp only: ex_objectively_sentences nth_Cons_0 ex_objectively_words not_False_eq_True)
  ultimately show
    "\<not> (rule_hit_at 102 0 (hits (scan (Some (str ''We acted objectively.'')) None)) \<longleftrightarrow>
      lack_metrics_words (split_sentences (Some (str ''We acted objectively.'')) ! 0))"
    by simp
qed

text \<open>
  C3.  \<open>We are carbon neutral through offsets.\<close> gives exactly one hit: category
  \<open>no_3rd\<close>, rule 302, sentence 0.  With \<open>verified under PAS 2060\<close> added it gives none.
\<close>

theorem carbon_neutral_scenario:
  "hits (scan (Some (str ''We are carbon neutral through offsets.'')) company) =
     [\<lparr>cat = str ''no_3rd'', rule_id = 302,
       text_snippet = str ''We are carbon neutral through offsets.'', sent_idx = 0\<rparr>] \<and>
   hits (scan (Some (str ''We are carbon neutral through offsets verified under PAS 2060.''))
           company) = []"
  by (simp only: hits_scan ex_neutral ex_neutral_pas simp_thms)

text \<open>
  C4.  The hits are in the order of (sentence index, position of the rule in the table),
  each strictly before the next, and \<open>scan\<close> on the same arguments gives the same hits.
\<close>

theorem hits_ordered:
  assumes "txt1 = txt2" and "c1 = c2"
  shows "sorted_wrt hit_before (hits (scan txt1 c1)) \<and>
         hits (scan txt1 c1) = hits (scan txt2 c2) \<and>
         map rule_id (hits (scan txt1 c1)) = map rule_id (hits (scan txt2 c2))"
  using assms by (simp add: hits_sorted)

theorem hits_ordered_witness:
  "Some (str ''Our goal is to aim high. We strive.'') =
     Some (str ''Our goal is to aim high. We strive.'') \<and>
   map (\<lambda>h. (sent_idx h, rule_id h))
     (hits (scan (Some (str ''Our goal is to aim high. We strive.'')) None)) =
     [(0, 901), (0, 102), (1, 901)] \<and>
   sorted_wrt hit_before (hits (scan (Some (str ''Our goal is to aim high. We strive.'')) None))"
proof -
  let ?t = "Some (str ''Our goal is to aim high. We strive.'')"
  have "map (\<lambda>h. (sent_idx h, rule_id h)) (hits (scan ?t None)) = [(0, 901), (0, 102), (1, 901)]"
    by (simp only: hits_scan ex_two)
  with hits_ordered [of ?t ?t None None] show ?thesis by simp
qed

text \<open>
  C5.  The company argument, given or not, has no effect on the result: neither on the
  hits nor on the notes.
\<close>

theorem company_ignored: "scan txt c1 = scan txt c2"
  by (simp add: scan_def)

text \<open>
  C6.  \<open>scan\<close> never raises: for every text, missing, empty or of any length, and every
  company, \<open>scan\<close> with its failing call explicit returns a result and no exception, and
  the result is the one \<open>scan\<close> computes.  The missing and the empty text give no hits,
  and the same result.  For a text as long as one likes, here the letter \<open>x\<close> any number
  of times, the result is there as well: no hits and, if the text is not empty, one
  sentence.
\<close>

theorem scan_never_raises:
  "scan_checked txt company = Inr (scan txt company) \<and>
   scan_checked txt company \<noteq> Inl e \<and>
   hits (scan None company) = [] \<and> hits (scan (Some []) company) = [] \<and>
   notes_summary (scan None company) = str ''sentences=0; hits=0; whitelist_in_sent=third_party'' \<and>
   scan (Some []) company = scan None company \<and>
   hits (scan (Some (replicate n 120)) company) = [] \<and>
   notes_summary (scan (Some (replicate (Suc n) 120)) company) =
     str ''sentences=1; hits=0; whitelist_in_sent=third_party''"
proof (intro conjI)
  show "scan_checked txt company = Inr (scan txt company)" by (rule scan_checked_ok)
  then show "scan_checked txt company \<noteq> Inl e" by simp
  show "hits (scan None company) = []"
    by (simp add: scan_def split_sentences_def normalize_text_def)
  show "hits (scan (Some []) company) = []"
    by (simp add: scan_def split_sentences_def normalize_text_def)
  show "notes_summary (scan None company) =
          str ''sentences=0; hits=0; whitelist_in_sent=third_party''"
    by (simp add: scan_def split_sentences_def normalize_text_def show_nat.simps str_def)
  show "scan (Some []) company = scan None company"
    by (simp add: scan_def split_sentences_def normalize_text_def)
  show "hits (scan (Some (replicate n 120)) company) = []" by (rule hits_xs)
  show "notes_summary (scan (Some (replicate (Suc n) 120)) company) =
          str ''sentences=1; hits=0; whitelist_in_sent=third_party''"
    by (rule notes_xs)
qed

text \<open>
  C7.  The text of a hit is its sentence cut to 400 code points: it has at most 400 and
  it is the first \<open>min 400 (length sentence)\<close> code points of the sentence at the hit's index.
\<close>

theorem hit_text_truncated:
  assumes "h \<in> set (hits (scan txt company))"
  shows "length (text_snippet h) \<le> 400 \<and>
         text_snippet h =
           take (min 400 (length (split_sentences txt ! sent_idx h)))
             (split_sentences txt ! sent_idx h)"
proof -
  from assms obtain i where "i < length (split_sentences txt)"
      and h: "h \<in> set (sentence_hits i (split_sentences txt ! i))"
    by (auto simp: in_hits_scan)
  have "sent_idx h = i" using h by (rule sentence_hits_idx)
  moreover have "text_snippet h = take 400 (split_sentences txt ! i)"
    using h by (rule sentence_hits_text)
  ultimately show ?thesis by (simp add: min_def)
qed

text \<open>A sentence of 401 code points: the hit keeps the first 400.\<close>

theorem hit_text_truncated_witness:
  "\<lparr>cat = str ''vague'', rule_id = 901, text_snippet = str ''We aim '' @ replicate 393 120,
     sent_idx = 0\<rparr> \<in> set (hits (scan (Some (str ''We aim '' @ replicate 394 120)) None)) \<and>
   length (str ''We aim '' @ replicate 393 120) \<le> 400 \<and>
   str ''We aim '' @ replicate 393 120 =
     take (min 400 (length (split_sentences (Some (str ''We aim '' @ replicate 394 120)) ! 0)))
       (split_sentences (Some (str ''We aim '' @ replicate 394 120)) ! 0)"
proof -
  let ?h = "\<lparr>cat = str ''vague'', rule_id = 901,
              text_snippet = str ''We aim '' @ replicate 393 120, sent_idx = 0\<rparr>"
  have "?h \<in> set (hits (scan (Some (str ''We aim '' @ replicate 394 120)) None))"
    by (simp only: hits_scan ex_long list.set insertI1)
  from hit_text_truncated [OF this] this show ?thesis by simp
qed

text \<open>
  C8.  The sentence index of a hit is a position in the list of sentences of the text.
\<close>

theorem hit_index_valid:
  "h \<in> set (hits (scan txt company)) \<Longrightarrow> sent_idx h < length (split_sentences txt)"
  by (auto simp: in_hits_scan dest: sentence_hits_idx)

theorem hit_index_valid_witness:
  "\<lparr>cat = str ''vague'', rule_id = 901, text_snippet = str ''We aim to reduce emissions.'',
     sent_idx = 0\<rparr> \<in> set (hits (scan (Some (str ''We aim to reduce emissions.'')) None)) \<and>
   (0 :: nat) < length (split_sentences (Some (str ''We aim to reduce emissions.'')))"
proof -
  let ?h = "\<lparr>cat = str ''vague'', rule_id = 901,
              text_snippet = str ''We aim to reduce emissions.'', sent_idx = 0\<rparr>"
  have "?h \<in> set (hits (scan (Some (str ''We aim to reduce emissions.'')) None))"
    by (simp only: hits_scan ex_aim list.set insertI1)
  from hit_index_valid [OF this] this show ?thesis by simp
qed

text \<open>
  C9.  \<open>score\<close> returns the same record for every text: each of the five entries of the
  breakdown is \<open>0.0\<close>, each entry of the radar is \<open>0\<close>, the overall value is \<open>0.0\<close> and
  the engine is \<open>legacy-stub\<close>.
\<close>

theorem score_constant:
  "score txt =
     \<lparr>radar = [(str ''vague'', 0), (str ''lack_metrics'', 0), (str ''misleading'', 0),
               (str ''cherry'', 0), (str ''no_3rd'', 0)],
      overall = 0,
      overall_greenwashing_score = [(str ''score'', 0)],
      breakdown =
        [(str ''Vague or unsubstantiated claims'', 0),
         (str ''Lack of specific metrics or targets'', 0),
         (str ''Misleading terminology'', 0),
         (str ''Cherry-picked data'', 0),
         (str ''Absence of third-party verification'', 0)],
      engine = str ''legacy-stub''\<rparr> \<and>
   map snd (breakdown (score txt)) = [0, 0, 0, 0, 0] \<and>
   map snd (radar (score txt)) = [0, 0, 0, 0, 0] \<and>
   overall (score txt) = 0 \<and>
   engine (score txt) = str ''legacy-stub'' \<and>
   score txt = score txt'"
  by (simp add: score_def)

text \<open>
  C10.  For a sentence index and a rule id there is at most one hit, however often the
  trigger of the rule occurs in the sentence; so there are at most six hits for each
  sentence.  \<open>We aim, we seek and we strive.\<close> holds three triggers of rule 901 and
  gives one hit.
\<close>

theorem one_hit_per_rule_and_sentence:
  "length (filter (\<lambda>h. sent_idx h = i \<and> rule_id h = r) (hits (scan txt company))) \<le> 1 \<and>
   length (hits (scan txt company)) \<le> 6 * length (split_sentences txt) \<and>
   hits (scan (Some (str ''We aim, we seek and we strive.'')) company) =
     [\<lparr>cat = str ''vague'', rule_id = 901,
       text_snippet = str ''We aim, we seek and we strive.'', sent_idx = 0\<rparr>]"
proof (intro conjI)
  have "sorted_wrt hit_before (hits (scan txt company))" by (rule hits_sorted)
  then show "length (filter (\<lambda>h. sent_idx h = i \<and> rule_id h = r) (hits (scan txt company))) \<le> 1"
    by (rule sorted_filter_key_le1)
  show "length (hits (scan txt company)) \<le> 6 * length (split_sentences txt)"
    by (simp add: hits_scan length_hits_from)
  show "hits (scan (Some (str ''We aim, we seek and we strive.'')) company) =
     [\<lparr>cat = str ''vague'', rule_id = 901,
       text_snippet = str ''We aim, we seek and we strive.'', sent_idx = 0\<rparr>]"
    by (simp only: hits_scan ex_repeat)
qed

end
